theory Spec2Isabelle
  imports Complex_Main "HOL-Library.AList"
begin

section \<open>JavaScript values used by the services\<close>

text \<open>
  The services are TypeScript; the type annotations are erased when the code runs, and
  the ingestion pipeline hands \<open>processDataBatch\<close> an \<open>any[]\<close>. A property of a record
  is therefore modelled as it exists at run time: \<open>None\<close> is \<open>undefined\<close> (the property
  is absent), \<open>Some v\<close> a value of the annotated type. This is what the tests
  \<open>!property.address\<close>, \<open>!property.zipCode\<close> of the source examine.

  Reading a method of \<open>undefined\<close> raises a \<open>TypeError\<close>, the only exception the
  normalization code can raise; a function that can raise returns \<open>error + 'a\<close>.
\<close>

datatype error = TypeError

definition bind_result :: "error + 'a \<Rightarrow> ('a \<Rightarrow> error + 'b) \<Rightarrow> error + 'b" where
  "bind_result r f = (case r of Inl e \<Rightarrow> Inl e | Inr v \<Rightarrow> f v)"

text \<open>
  A JavaScript number. \<open>Num r\<close> is a finite double, given by its exact value (the two
  zeros are not told apart); the quotient, product and rounding of finite numbers are
  the exact ones, without the rounding of IEEE arithmetic. No statement below depends
  on a finite result of these three operations.
\<close>

datatype number = Num real | NaN | PosInf | NegInf

definition to_number :: "number option \<Rightarrow> number" where
  "to_number x = (case x of None \<Rightarrow> NaN | Some n \<Rightarrow> n)"

fun js_div :: "number \<Rightarrow> number \<Rightarrow> number" where
  "js_div (Num a) (Num b) =
     (if b \<noteq> 0 then Num (a / b)
      else if a = 0 then NaN else if 0 < a then PosInf else NegInf)"
| "js_div (Num a) PosInf = Num 0"
| "js_div (Num a) NegInf = Num 0"
| "js_div PosInf (Num b) = (if 0 \<le> b then PosInf else NegInf)"
| "js_div NegInf (Num b) = (if 0 \<le> b then NegInf else PosInf)"
| "js_div _ _ = NaN"

fun js_times :: "number \<Rightarrow> number \<Rightarrow> number" where
  "js_times (Num a) (Num b) = Num (a * b)"
| "js_times (Num a) PosInf = (if a = 0 then NaN else if 0 < a then PosInf else NegInf)"
| "js_times (Num a) NegInf = (if a = 0 then NaN else if 0 < a then NegInf else PosInf)"
| "js_times PosInf (Num b) = (if b = 0 then NaN else if 0 < b then PosInf else NegInf)"
| "js_times NegInf (Num b) = (if b = 0 then NaN else if 0 < b then NegInf else PosInf)"
| "js_times PosInf PosInf = PosInf"
| "js_times NegInf NegInf = PosInf"
| "js_times PosInf NegInf = NegInf"
| "js_times NegInf PosInf = NegInf"
| "js_times _ _ = NaN"

fun Math_round :: "number \<Rightarrow> number" where
  "Math_round (Num a) = Num (of_int \<lfloor>a + 1 / 2\<rfloor>)"
| "Math_round n = n"

text \<open>The comparison \<open>a >= b\<close>: false as soon as one side is \<open>NaN\<close>.\<close>

fun js_ge :: "number \<Rightarrow> number \<Rightarrow> bool" where
  "js_ge NaN _ = False"
| "js_ge _ NaN = False"
| "js_ge PosInf _ = True"
| "js_ge _ NegInf = True"
| "js_ge (Num a) (Num b) = (b \<le> a)"
| "js_ge _ _ = False"

fun js_lt :: "number \<Rightarrow> number \<Rightarrow> bool" where
  "js_lt NaN _ = False"
| "js_lt _ NaN = False"
| "js_lt PosInf _ = False"
| "js_lt _ NegInf = False"
| "js_lt (Num a) (Num b) = (a < b)"
| "js_lt _ _ = True"

text \<open>\<open>!x\<close> on a string property and on a number property, and \<open>x <= 0\<close>.\<close>

definition falsy_string :: "string option \<Rightarrow> bool" where
  "falsy_string x = (case x of None \<Rightarrow> True | Some s \<Rightarrow> s = [])"

definition falsy_number :: "number option \<Rightarrow> bool" where
  "falsy_number x = (case x of None \<Rightarrow> True | Some n \<Rightarrow> n = NaN \<or> n = Num 0)"

definition js_le_zero :: "number option \<Rightarrow> bool" where
  "js_le_zero x = (case x of Some (Num a) \<Rightarrow> a \<le> 0 | Some NegInf \<Rightarrow> True | _ \<Rightarrow> False)"

subsection \<open>Strings\<close>

text \<open>
  A string is a list of characters; the character classes of the regular expressions
  (\<open>\s\<close>, \<open>\w\<close>, \<open>\d\<close>) and the case mappings are the ASCII ones.
\<close>

definition is_digit :: "char \<Rightarrow> bool" where
  "is_digit c = (c \<in> set ''0123456789'')"

definition is_space :: "char \<Rightarrow> bool" where
  "is_space c = (c \<in> set [CHR '' '', CHR 0x09, CHR 0x0A, CHR 0x0B, CHR 0x0C, CHR 0x0D])"

definition is_word :: "char \<Rightarrow> bool" where
  "is_word c =
     (c \<in> set ''abcdefghijklmnopqrstuvwxyzABCDEFGHIJKLMNOPQRSTUVWXYZ0123456789_'')"

definition toLowerCase :: "string \<Rightarrow> string" where
  "toLowerCase s =
     map (\<lambda>c. case map_of (zip ''ABCDEFGHIJKLMNOPQRSTUVWXYZ'' ''abcdefghijklmnopqrstuvwxyz'') c of
                 Some l \<Rightarrow> l | None \<Rightarrow> c) s"

definition toUpperCase :: "string \<Rightarrow> string" where
  "toUpperCase s =
     map (\<lambda>c. case map_of (zip ''abcdefghijklmnopqrstuvwxyz'' ''ABCDEFGHIJKLMNOPQRSTUVWXYZ'') c of
                 Some u \<Rightarrow> u | None \<Rightarrow> c) s"

definition trim :: "string \<Rightarrow> string" where
  "trim s = rev (dropWhile is_space (rev (dropWhile is_space s)))"

text \<open>\<open>.replace(/\s+/g, ' ')\<close>: every maximal run of white space becomes one blank.\<close>

function collapse_spaces :: "string \<Rightarrow> string" where
  "collapse_spaces [] = []"
| "collapse_spaces (c # cs) =
     (if is_space c then CHR '' '' # collapse_spaces (dropWhile is_space cs)
      else c # collapse_spaces cs)"
  by pat_completeness auto
termination
  by (relation "measure length") (auto simp: length_dropWhile_le less_Suc_eq_le)

text \<open>
  \<open>.replace(/\b(w1|w2)\b/g, rep)\<close>: between two word boundaries the alternatives can
  only match a whole word, a maximal run of \<open>\w\<close> characters; such a word is replaced
  when it is one of the alternatives.
\<close>

function replace_words :: "string list \<Rightarrow> string \<Rightarrow> string \<Rightarrow> string" where
  "replace_words alts rep [] = []"
| "replace_words alts rep (c # cs) =
     (if is_word c then
        (let w = takeWhile is_word (c # cs); rest = dropWhile is_word (c # cs)
         in (if w \<in> set alts then rep else w) @ replace_words alts rep rest)
      else c # replace_words alts rep cs)"
  by pat_completeness auto
termination
  by (relation "measure (\<lambda>(alts, rep, s). length s)")
     (auto simp: length_dropWhile_le less_Suc_eq_le)

section \<open>DataNormalizationService\<close>

record RawProperty =
  raw_id :: "string option"
  raw_source :: "string option"
  raw_address :: "string option"
  raw_city :: "string option"
  raw_state :: "string option"
  raw_zipCode :: "string option"
  raw_propertyType :: "string option"
  raw_listingPrice :: "number option"
  raw_sqft :: "number option"

record NormalizedProperty =
  np_id :: "string option"
  np_source :: "string option"
  np_normalizedAddress :: string
  np_city :: string
  np_state :: string
  np_zipCode :: string
  np_propertyType :: string
  np_listingPrice :: "number option"
  np_sqft :: "number option"
  np_pricePerSqft :: number
  np_confidence :: int
  np_duplicateGroup :: "string option"

text \<open>A method call on a string property: a \<open>TypeError\<close> when the property is absent.\<close>

definition on_string :: "string option \<Rightarrow> (string \<Rightarrow> 'a) \<Rightarrow> error + 'a" where
  "on_string x f = (case x of None \<Rightarrow> Inl TypeError | Some s \<Rightarrow> Inr (f s))"

text \<open>The ten \<open>.replace(/\b(long|short)\b/g, short)\<close> calls, in the order of the source.\<close>

definition suffixes :: "(string list \<times> string) list" where
  "suffixes =
     [([''street'', ''st''], ''st''), ([''avenue'', ''ave''], ''ave''),
      ([''road'', ''rd''], ''rd''), ([''boulevard'', ''blvd''], ''blvd''),
      ([''drive'', ''dr''], ''dr''), ([''lane'', ''ln''], ''ln''),
      ([''court'', ''ct''], ''ct''), ([''place'', ''pl''], ''pl''),
      ([''parkway'', ''pkwy''], ''pkwy''), ([''circle'', ''cir''], ''cir'')]"

definition normalizeAddress :: "string option \<Rightarrow> error + string" where
  "normalizeAddress address =
     on_string address (\<lambda>a.
       filter (\<lambda>c. is_word c \<or> is_space c)
         (fold (\<lambda>(alts, rep) s. replace_words alts rep s) suffixes
            (collapse_spaces (trim (toLowerCase a)))))"

definition typeMap :: "(string \<times> string) list" where
  "typeMap =
     [(''multi-family'', ''apartment''), (''multifamily'', ''apartment''),
      (''apartment complex'', ''apartment''), (''apartments'', ''apartment''),
      (''office building'', ''office''), (''office space'', ''office''),
      (''retail space'', ''retail''), (''shopping center'', ''retail''),
      (''strip mall'', ''retail''), (''warehouse'', ''industrial''),
      (''distribution'', ''industrial''), (''manufacturing'', ''industrial''),
      (''flex space'', ''industrial''), (''mixed use'', ''mixed-use''),
      (''mixed-use'', ''mixed-use'')]"

text \<open>
  \<open>typeMap[normalized] || normalized\<close>. The table is a plain object, so for the two
  lower-case keys it inherits (\<open>constructor\<close>, \<open>__proto__\<close>) the source returns the
  inherited object instead of a string; the model returns the key. Neither function
  raises there.
\<close>

definition normalizePropertyType :: "string option \<Rightarrow> error + string" where
  "normalizePropertyType type =
     on_string type (\<lambda>t.
       let normalized = trim (toLowerCase t)
       in case map_of typeMap normalized of Some v \<Rightarrow> v | None \<Rightarrow> normalized)"

definition stateMap :: "(string \<times> string) list" where
  "stateMap =
     [(''georgia'', ''GA''), (''florida'', ''FL''), (''alabama'', ''AL''),
      (''tennessee'', ''TN''), (''north carolina'', ''NC''), (''south carolina'', ''SC'')]"

definition normalizeState :: "string option \<Rightarrow> error + string" where
  "normalizeState state =
     on_string state (\<lambda>s.
       let normalized = trim (toLowerCase s)
       in case map_of stateMap normalized of Some v \<Rightarrow> v | None \<Rightarrow> toUpperCase s)"

definition normalizeZipCode :: "string option \<Rightarrow> error + string" where
  "normalizeZipCode zipCode =
     on_string zipCode (\<lambda>z.
       let digits = take 5 (filter is_digit z)
       in replicate (5 - length digits) CHR ''0'' @ digits)"

text \<open>
  \<open>calculateConfidence\<close>, statement by statement. The second statement calls
  \<open>property.address.match\<close> without the guard of the first.
\<close>

definition calculateConfidence :: "RawProperty \<Rightarrow> error + int" where
  "calculateConfidence property =
     (let c0 = 100;
          c1 = (if falsy_string (raw_address property) \<or>
                   (case raw_address property of None \<Rightarrow> False | Some a \<Rightarrow> length a < 10)
                then c0 - 20 else c0)
      in bind_result (on_string (raw_address property) (\<lambda>a. list_ex is_digit a)) (\<lambda>matched.
         let c2 = (if \<not> matched then c1 - 15 else c1);
             c3 = (if falsy_string (raw_zipCode property) then c2 - 15 else c2);
             c4 = (if falsy_string (raw_city property) then c3 - 10 else c3);
             c5 = (if falsy_string (raw_state property) then c4 - 10 else c4);
             c6 = (if falsy_number (raw_listingPrice property) \<or>
                      js_le_zero (raw_listingPrice property) then c5 - 20 else c5);
             c7 = (if falsy_number (raw_sqft property) \<or> js_le_zero (raw_sqft property)
                   then c6 - 15 else c6);
             c8 = (if raw_source property = Some ''LoopNet'' then c7 + 10
                   else if raw_source property = Some ''Crexi'' then c7 + 5 else c7)
         in Inr (max 0 (min 100 c8))))"

definition normalizeProperty :: "RawProperty \<Rightarrow> error + NormalizedProperty" where
  "normalizeProperty rawProperty =
     bind_result (normalizeAddress (raw_address rawProperty)) (\<lambda>normalizedAddress.
     bind_result (normalizeState (raw_state rawProperty)) (\<lambda>state.
     bind_result (if \<not> falsy_string (raw_zipCode rawProperty)
                  then normalizeZipCode (raw_zipCode rawProperty) else Inr ''00000'') (\<lambda>zipCode.
     bind_result (normalizePropertyType (raw_propertyType rawProperty)) (\<lambda>propertyType.
     let pricePerSqft = js_div (to_number (raw_listingPrice rawProperty))
                               (to_number (raw_sqft rawProperty))
     in bind_result (calculateConfidence rawProperty) (\<lambda>confidence.
        bind_result (on_string (raw_city rawProperty) trim) (\<lambda>city.
        Inr \<lparr> np_id = raw_id rawProperty,
              np_source = raw_source rawProperty,
              np_normalizedAddress = normalizedAddress,
              np_city = city,
              np_state = state,
              np_zipCode = zipCode,
              np_propertyType = propertyType,
              np_listingPrice = raw_listingPrice rawProperty,
              np_sqft = raw_sqft rawProperty,
              np_pricePerSqft = js_div (Math_round (js_times pricePerSqft (Num 100))) (Num 100),
              np_confidence = confidence,
              np_duplicateGroup = None \<rparr>))))))"

subsection \<open>Duplicate detection\<close>

text \<open>
  \<open>calculateSimilarity\<close> is a sum of floating-point terms; \<open>findDuplicates\<close> only
  looks at the outcome of \<open>similarity >= threshold\<close>. The similarity function is a
  parameter \<open>sim\<close> of the model, so that every statement holds for the function of the
  source. A reference \<open>properties[j]\<close> pushed into a group is modelled by the index
  \<open>j\<close>; \<open>processed\<close> is the set of ids.
\<close>

type_synonym similarity = "NormalizedProperty \<Rightarrow> NormalizedProperty \<Rightarrow> number"

function findDuplicates_inner ::
  "similarity \<Rightarrow> number \<Rightarrow> NormalizedProperty list \<Rightarrow> nat \<Rightarrow> nat \<Rightarrow>
   nat list \<times> string option set \<Rightarrow> nat list \<times> string option set" where
  "findDuplicates_inner sim threshold properties i j (currentGroup, processed) =
     (if j < length properties then
        (if np_id (properties ! j) \<in> processed
         then findDuplicates_inner sim threshold properties i (j + 1) (currentGroup, processed)
         else if js_ge (sim (properties ! i) (properties ! j)) threshold
         then findDuplicates_inner sim threshold properties i (j + 1)
                (currentGroup @ [j], insert (np_id (properties ! j)) processed)
         else findDuplicates_inner sim threshold properties i (j + 1) (currentGroup, processed))
      else (currentGroup, processed))"
  by pat_completeness auto
termination
  by (relation "measure (\<lambda>(sim, threshold, properties, i, j, st). length properties - j)") auto

function findDuplicates_outer ::
  "similarity \<Rightarrow> number \<Rightarrow> NormalizedProperty list \<Rightarrow> nat \<Rightarrow>
   nat list list \<times> string option set \<Rightarrow> nat list list" where
  "findDuplicates_outer sim threshold properties i (duplicateGroups, processed) =
     (if i < length properties then
        (if np_id (properties ! i) \<in> processed
         then findDuplicates_outer sim threshold properties (i + 1) (duplicateGroups, processed)
         else
           (case findDuplicates_inner sim threshold properties i (i + 1)
                   ([i], insert (np_id (properties ! i)) processed) of
              (currentGroup, processed') \<Rightarrow>
                findDuplicates_outer sim threshold properties (i + 1)
                  (if 1 < length currentGroup then duplicateGroups @ [currentGroup]
                   else duplicateGroups, processed')))
      else duplicateGroups)"
  by pat_completeness auto
termination
  by (relation "measure (\<lambda>(sim, threshold, properties, i, st). length properties - i)") auto

declare findDuplicates_inner.simps [simp del]
declare findDuplicates_outer.simps [simp del]

definition findDuplicates_refs :: "similarity \<Rightarrow> number \<Rightarrow> NormalizedProperty list \<Rightarrow> nat list list" where
  "findDuplicates_refs sim threshold properties =
     findDuplicates_outer sim threshold properties 0 ([], {})"

definition findDuplicates ::
  "similarity \<Rightarrow> number \<Rightarrow> NormalizedProperty list \<Rightarrow> NormalizedProperty list list" where
  "findDuplicates sim threshold properties =
     map (map (\<lambda>i. properties ! i)) (findDuplicates_refs sim threshold properties)"

text \<open>The default \<open>threshold = 0.85\<close>: the exact value of that double.\<close>

definition default_threshold :: number where
  "default_threshold = Num (7656119366529843 / 9007199254740992)"

text \<open>
  \<open>group.reduce((best, current) => current.confidence > best.confidence ? current : best)\<close>,
  without an initial value: a \<open>TypeError\<close> on an empty array.
\<close>

definition reduce_best :: "NormalizedProperty list \<Rightarrow> nat list \<Rightarrow> error + nat" where
  "reduce_best heap grp =
     (case grp of
        [] \<Rightarrow> Inl TypeError
      | first # rest \<Rightarrow>
          Inr (fold (\<lambda>current best.
                 if np_confidence (heap ! current) > np_confidence (heap ! best)
                 then current else best) rest first))"

definition set_duplicateGroup :: "string \<Rightarrow> nat \<Rightarrow> NormalizedProperty list \<Rightarrow> NormalizedProperty list" where
  "set_duplicateGroup groupId i heap = heap[i := (heap ! i)\<lparr>np_duplicateGroup := Some groupId\<rparr>]"

text \<open>
  The loop over the duplicate groups. The records of the input array are objects that the
  loop mutates (\<open>prop.duplicateGroup = groupId\<close>): \<open>heap\<close> is the input array with the
  current contents of its objects, \<open>deduplicated\<close> the references pushed so far. The
  group id is built from the clock and a random number: \<open>newGroupId k\<close> is the id drawn
  for the \<open>k\<close>-th group.
\<close>

fun dedup_groups ::
  "(nat \<Rightarrow> string) \<Rightarrow> nat \<Rightarrow> nat list list \<Rightarrow> NormalizedProperty list \<times> nat list \<Rightarrow>
   error + NormalizedProperty list \<times> nat list" where
  "dedup_groups newGroupId k [] (heap, deduplicated) = Inr (heap, deduplicated)"
| "dedup_groups newGroupId k (grp # grps) (heap, deduplicated) =
     bind_result (reduce_best heap grp) (\<lambda>bestProperty.
       let groupId = newGroupId k;
           heap1 = fold (set_duplicateGroup groupId) grp heap;
           heap2 = set_duplicateGroup groupId bestProperty heap1
       in dedup_groups newGroupId (k + 1) grps (heap2, deduplicated @ [bestProperty]))"

record DeduplicationResult =
  deduplicatedProperties :: "NormalizedProperty list"
  duplicateGroups :: "NormalizedProperty list list"
  removedCount :: int

text \<open>
  The result, and with it the input array as the call leaves it (its objects are shared
  with the arrays of the result).
\<close>

definition deduplicateProperties ::
  "(nat \<Rightarrow> string) \<Rightarrow> similarity \<Rightarrow> NormalizedProperty list \<Rightarrow>
   error + DeduplicationResult \<times> NormalizedProperty list" where
  "deduplicateProperties newGroupId sim properties =
     (let grps = findDuplicates_refs sim default_threshold properties;
          duplicateIds = set (map (\<lambda>i. np_id (properties ! i)) (concat grps));
          nonDuplicates = filter (\<lambda>i. np_id (properties ! i) \<notin> duplicateIds) [0..<length properties]
      in bind_result (dedup_groups newGroupId 0 grps (properties, nonDuplicates))
           (\<lambda>(heap, deduplicated).
              Inr (\<lparr> deduplicatedProperties = map (\<lambda>i. heap ! i) deduplicated,
                      duplicateGroups = map (map (\<lambda>i. heap ! i)) grps,
                      removedCount = int (length properties) - int (length deduplicated) \<rparr>,
                   heap)))"

record Statistics =
  totalInput :: nat
  normalizedCount :: nat
  duplicatesFound :: nat
  finalCount :: nat
  averageConfidence :: number

record BatchResult =
  normalizedProperties :: "NormalizedProperty list"
  batch_deduplicatedProperties :: "NormalizedProperty list"
  statistics :: Statistics

fun map_result :: "('a \<Rightarrow> error + 'b) \<Rightarrow> 'a list \<Rightarrow> error + 'b list" where
  "map_result f [] = Inr []"
| "map_result f (x # xs) =
     bind_result (f x) (\<lambda>y. bind_result (map_result f xs) (\<lambda>ys. Inr (y # ys)))"

definition processDataBatch ::
  "(nat \<Rightarrow> string) \<Rightarrow> similarity \<Rightarrow> RawProperty list \<Rightarrow> error + BatchResult" where
  "processDataBatch newGroupId sim rawProperties =
     bind_result (map_result normalizeProperty rawProperties) (\<lambda>normalized.
     bind_result (deduplicateProperties newGroupId sim normalized) (\<lambda>(dedup, normalizedProperties').
       let deduplicated = deduplicatedProperties dedup;
           averageConfidence =
             js_div (Num (of_int (fold (\<lambda>prop sum. sum + np_confidence prop) deduplicated 0)))
                    (Num (of_nat (length deduplicated)))
       in Inr \<lparr> normalizedProperties = normalizedProperties',
                 batch_deduplicatedProperties = deduplicated,
                 statistics =
                   \<lparr> totalInput = length rawProperties,
                     normalizedCount = length normalizedProperties',
                     duplicatesFound = length (duplicateGroups dedup),
                     finalCount = length deduplicated,
                     averageConfidence =
                       js_div (Math_round (js_times averageConfidence (Num 100))) (Num 100) \<rparr> \<rparr>))"

section \<open>JobQueueSystem\<close>

text \<open>
  The queue is an object with mutable fields; every method is a function from the state
  before to the state after. Times are milliseconds; \<open>now\<close> is the clock reading of a
  call (\<open>new Date()\<close>). The payload and the result of a job are opaque to the queue.
\<close>

datatype job_type = scraping | data_processing | market_analysis | tax_lookup

datatype job_status = pending | running | completed | failed | retrying

record Job =
  job_id :: string
  job_type :: job_type
  priority :: nat
  payload :: string
  status :: job_status
  createdAt :: nat
  startedAt :: "nat option"
  completedAt :: "nat option"
  attempts :: nat
  maxAttempts :: int
  errorMessage :: "string option"
  result :: "string option"

text \<open>
  The two callbacks that the queue hands to \<open>setTimeout\<close>: the re-insertion of a failed
  job, and the next pass of the scheduler.
\<close>

datatype timer = Requeue string | Reschedule

text \<open>
  \<open>jobs\<close> is the \<open>Map\<close> from ids to job objects, in insertion order; the array
  \<open>queue\<close> and the set \<open>runningJobs\<close> hold job objects and ids, here ids in both
  cases, the object being the entry of \<open>jobs\<close> (\<open>generateJobId\<close> builds an id from the
  clock and a random number, and is taken to return an id that is not in use).
  \<open>timers\<close> are the pending \<open>setTimeout\<close> calls with their due times. \<open>executions\<close>
  is the console line \<open>Executing job\<close> of each run, \<open>progress\<close> what the subscribed
  callbacks are called with; the callbacks return normally and do not call the queue.
\<close>

record JobQueueSystem =
  jobs :: "(string \<times> Job) list"
  queue :: "string list"
  runningJobs :: "string list"
  isProcessing :: bool
  progressCallbacks :: "string list"
  timers :: "(nat \<times> timer) list"
  executions :: "string list"
  progress :: "(string \<times> nat \<times> string) list"

definition maxConcurrentJobs :: nat where
  "maxConcurrentJobs = 3"

definition initial :: JobQueueSystem where
  "initial = \<lparr> jobs = [], queue = [], runningJobs = [], isProcessing = False,
               progressCallbacks = [], timers = [], executions = [], progress = [] \<rparr>"

definition getJob :: "JobQueueSystem \<Rightarrow> string \<Rightarrow> Job option" where
  "getJob s jobId = map_of (jobs s) jobId"

definition getJobStatus :: "JobQueueSystem \<Rightarrow> string \<Rightarrow> job_status option" where
  "getJobStatus s jobId = (case getJob s jobId of Some job \<Rightarrow> Some (status job) | None \<Rightarrow> None)"

definition getAllJobs :: "JobQueueSystem \<Rightarrow> Job list" where
  "getAllJobs s = map snd (jobs s)"

definition getJobsByStatus :: "JobQueueSystem \<Rightarrow> job_status \<Rightarrow> Job list" where
  "getJobsByStatus s st = filter (\<lambda>job. status job = st) (getAllJobs s)"

definition update_job :: "string \<Rightarrow> (Job \<Rightarrow> Job) \<Rightarrow> JobQueueSystem \<Rightarrow> JobQueueSystem" where
  "update_job jobId f s = s\<lparr> jobs := AList.map_entry jobId f (jobs s) \<rparr>"

definition updateProgress :: "string \<Rightarrow> nat \<Rightarrow> string \<Rightarrow> JobQueueSystem \<Rightarrow> JobQueueSystem" where
  "updateProgress jobId percent message s =
     (if jobId \<in> set (progressCallbacks s)
      then s\<lparr> progress := progress s @ [(jobId, percent, message)] \<rparr> else s)"

definition subscribeToProgress :: "string \<Rightarrow> JobQueueSystem \<Rightarrow> JobQueueSystem" where
  "subscribeToProgress jobId s =
     (if jobId \<in> set (progressCallbacks s) then s
      else s\<lparr> progressCallbacks := progressCallbacks s @ [jobId] \<rparr>)"

definition unsubscribeFromProgress :: "string \<Rightarrow> JobQueueSystem \<Rightarrow> JobQueueSystem" where
  "unsubscribeFromProgress jobId s = s\<lparr> progressCallbacks := removeAll jobId (progressCallbacks s) \<rparr>"

text \<open>The comparator of \<open>sortQueue\<close>; \<open>Array.prototype.sort\<close> is stable.\<close>

definition compareJobs :: "Job \<Rightarrow> Job \<Rightarrow> int" where
  "compareJobs a b =
     (if priority a \<noteq> priority b then int (priority a) - int (priority b)
      else int (createdAt a) - int (createdAt b))"

definition compare_queued :: "JobQueueSystem \<Rightarrow> string \<Rightarrow> string \<Rightarrow> int" where
  "compare_queued s a b =
     (case (getJob s a, getJob s b) of (Some x, Some y) \<Rightarrow> compareJobs x y | _ \<Rightarrow> 0)"

fun insert_sorted :: "('a \<Rightarrow> 'a \<Rightarrow> int) \<Rightarrow> 'a \<Rightarrow> 'a list \<Rightarrow> 'a list" where
  "insert_sorted cmp x [] = [x]"
| "insert_sorted cmp x (y # ys) =
     (if cmp x y \<le> 0 then x # y # ys else y # insert_sorted cmp x ys)"

definition stable_sort :: "('a \<Rightarrow> 'a \<Rightarrow> int) \<Rightarrow> 'a list \<Rightarrow> 'a list" where
  "stable_sort cmp xs = foldr (insert_sorted cmp) xs []"

definition sortQueue :: "JobQueueSystem \<Rightarrow> JobQueueSystem" where
  "sortQueue s = s\<lparr> queue := stable_sort (compare_queued s) (queue s) \<rparr>"

text \<open>
  \<open>executeJob\<close> is asynchronous. \<open>executeJob_start\<close> is what runs at the call, up to
  the executor's first \<open>await\<close>. The executor then returns a result or throws
  (\<open>outcome\<close>; the \<open>default\<close> branch of the \<open>switch\<close> throws an \<open>Error\<close>), and
  \<open>executeJob_settle\<close> is the rest of the function, the \<open>catch\<close> block included;
  the \<open>finally\<close> callback of \<open>processQueue\<close> runs right after it.
\<close>

definition executeJob_start :: "nat \<Rightarrow> string \<Rightarrow> JobQueueSystem \<Rightarrow> JobQueueSystem" where
  "executeJob_start now jobId s =
     (let s1 = update_job jobId
                 (\<lambda>job. job\<lparr> status := running, startedAt := Some now,
                                attempts := attempts job + 1 \<rparr>) s;
          s2 = s1\<lparr> executions := executions s1 @ [jobId] \<rparr>
      in updateProgress jobId 0 ''Starting job...'' s2)"

function processQueue_loop :: "nat \<Rightarrow> JobQueueSystem \<Rightarrow> JobQueueSystem" where
  "processQueue_loop now s =
     (if queue s \<noteq> [] \<and> length (runningJobs s) < maxConcurrentJobs then
        (let job = hd (queue s);
             s1 = s\<lparr> queue := tl (queue s) \<rparr>
         in if job \<in> set (runningJobs s1) then processQueue_loop now s1
            else processQueue_loop now
                   (executeJob_start now job (s1\<lparr> runningJobs := runningJobs s1 @ [job] \<rparr>)))
      else s)"
  by pat_completeness auto
termination
  by (relation "measure (\<lambda>(now, s). length (queue s))")
     (auto simp: executeJob_start_def update_job_def updateProgress_def Let_def)

declare processQueue_loop.simps [simp del]

definition processQueue :: "nat \<Rightarrow> JobQueueSystem \<Rightarrow> JobQueueSystem" where
  "processQueue now s =
     (if isProcessing s then s
      else let s1 = processQueue_loop now (s\<lparr> isProcessing := True \<rparr>)
           in s1\<lparr> timers := timers s1 @ [(now + 1000, Reschedule)] \<rparr>)"

definition addJob ::
  "nat \<Rightarrow> string \<Rightarrow> job_type \<Rightarrow> string \<Rightarrow> nat \<Rightarrow> int \<Rightarrow> JobQueueSystem \<Rightarrow> JobQueueSystem" where
  "addJob now newId type payload' priority' maxAttempts' s =
     (let job = \<lparr> job_id = newId, job_type = type, priority = priority', payload = payload',
                   status = pending, createdAt = now, startedAt = None, completedAt = None,
                   attempts = 0, maxAttempts = maxAttempts', errorMessage = None,
                   result = None \<rparr>;
          s1 = s\<lparr> jobs := AList.update newId job (jobs s) \<rparr>;
          s2 = s1\<lparr> queue := queue s1 @ [newId] \<rparr>;
          s3 = sortQueue s2
      in if \<not> isProcessing s3 then processQueue now s3 else s3)"

datatype outcome = Returned string | Threw_Error string | Threw_other

definition executeJob_settle :: "nat \<Rightarrow> string \<Rightarrow> outcome \<Rightarrow> JobQueueSystem \<Rightarrow> JobQueueSystem" where
  "executeJob_settle now jobId out s =
     (case out of
        Returned r \<Rightarrow>
          updateProgress jobId 100 ''Job completed successfully''
            (update_job jobId
               (\<lambda>job. job\<lparr> status := completed, completedAt := Some now, result := Some r \<rparr>) s)
      | _ \<Rightarrow>
          (let message = (case out of Threw_Error m \<Rightarrow> m | _ \<Rightarrow> ''Unknown error'')
           in case getJob s jobId of
                None \<Rightarrow> s
              | Some job \<Rightarrow>
                  if int (attempts job) < maxAttempts job then
                    (update_job jobId
                       (\<lambda>job. job\<lparr> status := retrying, errorMessage := Some message \<rparr>) s)
                    \<lparr> timers := timers s @ [(now + 5000 * attempts job, Requeue jobId)] \<rparr>
                  else
                    updateProgress jobId 0 (''Job failed: '' @ message)
                      (update_job jobId
                         (\<lambda>job. job\<lparr> status := failed, completedAt := Some now,
                                        errorMessage := Some message \<rparr>) s)))"

definition finally_delete :: "string \<Rightarrow> JobQueueSystem \<Rightarrow> JobQueueSystem" where
  "finally_delete jobId s = s\<lparr> runningJobs := removeAll jobId (runningJobs s) \<rparr>"

definition fire :: "nat \<Rightarrow> timer \<Rightarrow> JobQueueSystem \<Rightarrow> JobQueueSystem" where
  "fire now t s =
     (case t of
        Requeue jobId \<Rightarrow> sortQueue (s\<lparr> queue := jobId # queue s \<rparr>)
      | Reschedule \<Rightarrow>
          (let s1 = s\<lparr> isProcessing := False \<rparr>
           in if queue s1 \<noteq> [] then processQueue now s1 else s1))"

definition cancelJob :: "nat \<Rightarrow> string \<Rightarrow> JobQueueSystem \<Rightarrow> bool \<times> JobQueueSystem" where
  "cancelJob now jobId s =
     (case getJob s jobId of
        None \<Rightarrow> (False, s)
      | Some job \<Rightarrow>
          if status job = running \<or> status job = completed then (False, s)
          else (True,
                update_job jobId
                  (\<lambda>job. job\<lparr> status := failed, errorMessage := Some ''Job cancelled by user'',
                                 completedAt := Some now \<rparr>)
                  (s\<lparr> queue := remove1 jobId (queue s) \<rparr>)))"

subsection \<open>The queue over time\<close>

text \<open>
  What can happen to a queue: a call of \<open>addJob\<close> (with the generated id), a pending
  timer firing at or after its due time, the executor of a running job settling, a call
  of \<open>cancelJob\<close>, and the subscriptions. A state is reachable when a sequence of such
  events leads to it from the empty queue.
\<close>

datatype event =
    AddJob nat string job_type string nat int
  | TimerFires nat nat
  | Settles nat string outcome
  | CancelJob nat string
  | Subscribe string
  | Unsubscribe string

fun step :: "event \<Rightarrow> JobQueueSystem \<Rightarrow> JobQueueSystem option" where
  "step (AddJob now newId type payload' priority' maxAttempts') s =
     (if newId \<in> set (map fst (jobs s)) then None
      else Some (addJob now newId type payload' priority' maxAttempts' s))"
| "step (TimerFires now k) s =
     (if k < length (timers s) \<and> fst (timers s ! k) \<le> now
      then Some (fire now (snd (timers s ! k))
                   (s\<lparr> timers := take k (timers s) @ drop (Suc k) (timers s) \<rparr>))
      else None)"
| "step (Settles now jobId out) s =
     (if getJobStatus s jobId = Some running
      then Some (finally_delete jobId (executeJob_settle now jobId out s))
      else None)"
| "step (CancelJob now jobId) s = Some (snd (cancelJob now jobId s))"
| "step (Subscribe jobId) s = Some (subscribeToProgress jobId s)"
| "step (Unsubscribe jobId) s = Some (unsubscribeFromProgress jobId s)"

fun run :: "event list \<Rightarrow> JobQueueSystem \<Rightarrow> JobQueueSystem option" where
  "run [] s = Some s"
| "run (e # es) s = (case step e s of None \<Rightarrow> None | Some s' \<Rightarrow> run es s')"

inductive reachable :: "JobQueueSystem \<Rightarrow> bool" where
  reachable_initial: "reachable initial"
| reachable_step: "reachable s \<Longrightarrow> step e s = Some s' \<Longrightarrow> reachable s'"

section \<open>The specification's scoring rule\<close>

text \<open>
  The confidence score as the specification words it. A string property is missing when
  it is absent or empty, a number property when it is absent or \<open>NaN\<close>. The high-trust
  source is \<open>LoopNet\<close>, the medium-trust source \<open>Crexi\<close>.
\<close>

definition penalty :: "bool \<Rightarrow> int \<Rightarrow> int" where
  "penalty b n = (if b then n else 0)"

definition missing_string :: "string option \<Rightarrow> bool" where
  "missing_string x = (x = None \<or> x = Some [])"

definition missing_number :: "number option \<Rightarrow> bool" where
  "missing_number x = (x = None \<or> x = Some NaN)"

definition non_positive :: "number option \<Rightarrow> bool" where
  "non_positive x = (case x of Some (Num a) \<Rightarrow> a \<le> 0 | Some NegInf \<Rightarrow> True | _ \<Rightarrow> False)"

definition shorter_than :: "nat \<Rightarrow> string option \<Rightarrow> bool" where
  "shorter_than n x = (case x of None \<Rightarrow> False | Some s \<Rightarrow> length s < n)"

definition contains_digit :: "string option \<Rightarrow> bool" where
  "contains_digit x = (case x of None \<Rightarrow> False | Some s \<Rightarrow> list_ex is_digit s)"

definition source_bonus :: "string option \<Rightarrow> int" where
  "source_bonus src = (if src = Some ''LoopNet'' then 10 else if src = Some ''Crexi'' then 5 else 0)"

definition confidence_score :: "RawProperty \<Rightarrow> int" where
  "confidence_score r =
     max 0 (min 100
       (100
        - penalty (missing_string (raw_address r) \<or> shorter_than 10 (raw_address r)) 20
        - penalty (\<not> contains_digit (raw_address r)) 15
        - penalty (missing_string (raw_zipCode r)) 15
        - penalty (missing_string (raw_city r)) 10
        - penalty (missing_string (raw_state r)) 10
        - penalty (missing_number (raw_listingPrice r) \<or> non_positive (raw_listingPrice r)) 20
        - penalty (missing_number (raw_sqft r) \<or> non_positive (raw_sqft r)) 15
        + source_bonus (raw_source r)))"

definition no_penalty :: "RawProperty \<Rightarrow> bool" where
  "no_penalty r =
     (\<not> missing_string (raw_address r) \<and> \<not> shorter_than 10 (raw_address r) \<and>
      contains_digit (raw_address r) \<and> \<not> missing_string (raw_zipCode r) \<and>
      \<not> missing_string (raw_city r) \<and> \<not> missing_string (raw_state r) \<and>
      \<not> missing_number (raw_listingPrice r) \<and> \<not> non_positive (raw_listingPrice r) \<and>
      \<not> missing_number (raw_sqft r) \<and> \<not> non_positive (raw_sqft r))"

section \<open>The specification's forward pass\<close>

text \<open>
  The clustering as the specification words it, by recursion on the list of records:
  a record not yet marked processed seeds a group and is marked; \<open>join_seed\<close> scans the
  later records, and each unprocessed one that is similar to the seed joins the group and
  is marked; groups of one member are dropped. A record is marked by its \<open>key\<close>.
\<close>

fun join_seed :: "('a \<Rightarrow> 'k) \<Rightarrow> ('a \<Rightarrow> bool) \<Rightarrow> 'a list \<Rightarrow> 'k set \<Rightarrow> 'a list \<times> 'k set" where
  "join_seed key similar [] processed = ([], processed)"
| "join_seed key similar (y # ys) processed =
     (if key y \<notin> processed \<and> similar y
      then (case join_seed key similar ys (insert (key y) processed) of
              (members, processed') \<Rightarrow> (y # members, processed'))
      else join_seed key similar ys processed)"

fun forward_pass :: "('a \<Rightarrow> 'k) \<Rightarrow> ('a \<Rightarrow> 'a \<Rightarrow> bool) \<Rightarrow> 'a list \<Rightarrow> 'k set \<Rightarrow> 'a list list" where
  "forward_pass key similar [] processed = []"
| "forward_pass key similar (x # xs) processed =
     (if key x \<in> processed then forward_pass key similar xs processed
      else (case join_seed key (similar x) xs (insert (key x) processed) of
              (members, processed') \<Rightarrow> (x # members) # forward_pass key similar xs processed'))"

definition duplicate_groups ::
  "similarity \<Rightarrow> number \<Rightarrow> NormalizedProperty list \<Rightarrow> NormalizedProperty list list" where
  "duplicate_groups sim threshold records =
     filter (\<lambda>g. length g \<noteq> 1)
       (forward_pass np_id (\<lambda>seed r. js_ge (sim seed r) threshold) records {})"

section \<open>The specification's survivors\<close>

text \<open>
  \<open>tag\<close> gives a record the id of its duplicate group; \<open>highest_confidence\<close> is the
  first record of a group whose confidence no record of the group exceeds. \<open>best_ref\<close> is
  the reference that the \<open>reduce\<close> of the source returns on a non-empty group.
\<close>

definition tag :: "string \<Rightarrow> NormalizedProperty \<Rightarrow> NormalizedProperty" where
  "tag groupId r = r\<lparr> np_duplicateGroup := Some groupId \<rparr>"

definition highest_confidence :: "NormalizedProperty list \<Rightarrow> NormalizedProperty option" where
  "highest_confidence g = find (\<lambda>r. list_all (\<lambda>q. np_confidence q \<le> np_confidence r) g) g"

definition best_ref :: "NormalizedProperty list \<Rightarrow> nat list \<Rightarrow> nat" where
  "best_ref heap g =
     fold (\<lambda>current best.
             if np_confidence (heap ! current) > np_confidence (heap ! best) then current else best)
       (tl g) (hd g)"

section \<open>The specification's pending pool\<close>

text \<open>
  The pool is in order when the (priority, createdAt) pairs of the queued jobs ascend:
  a lower priority number first, and among equal priorities the earlier creation time.
  \<open>thrown_message\<close> is the message that the \<open>catch\<close> block stores.
\<close>

definition job_key :: "JobQueueSystem \<Rightarrow> string \<Rightarrow> (nat \<times> nat) option" where
  "job_key s jobId = map_option (\<lambda>job. (priority job, createdAt job)) (getJob s jobId)"

fun precedes :: "(nat \<times> nat) option \<Rightarrow> (nat \<times> nat) option \<Rightarrow> bool" where
  "precedes (Some (p, c)) (Some (p', c')) = (p < p' \<or> (p = p' \<and> c \<le> c'))"
| "precedes _ _ = False"

definition pool_in_order :: "JobQueueSystem \<Rightarrow> bool" where
  "pool_in_order s = sorted_wrt precedes (map (job_key s) (queue s))"

definition thrown_message :: "outcome \<Rightarrow> string" where
  "thrown_message out = (case out of Threw_Error m \<Rightarrow> m | _ \<Rightarrow> ''Unknown error'')"

text \<open>
  The ids of the jobs that wait for their re-insertion, and the invariant of the
  reachable states: the ids in the pool, waiting for re-insertion and running are
  pairwise different jobs of the map, and the running set holds exactly the jobs whose
  status is \<open>running\<close>.
\<close>

fun requeue_ids :: "(nat \<times> timer) list \<Rightarrow> string list" where
  "requeue_ids [] = []"
| "requeue_ids ((due, Requeue jobId) # ts) = jobId # requeue_ids ts"
| "requeue_ids ((due, Reschedule) # ts) = requeue_ids ts"

definition queue_invariant :: "JobQueueSystem \<Rightarrow> bool" where
  "queue_invariant s =
     (distinct (map fst (jobs s)) \<and>
      distinct (queue s @ requeue_ids (timers s) @ runningJobs s) \<and>
      set (queue s @ requeue_ids (timers s) @ runningJobs s) \<subseteq> set (map fst (jobs s)) \<and>
      (\<forall>j. (getJobStatus s j = Some running) = (j \<in> set (runningJobs s))) \<and>
      length (runningJobs s) \<le> maxConcurrentJobs)"

text \<open>The state after a sequence of events.\<close>

definition after :: "event list \<Rightarrow> JobQueueSystem" where
  "after es = (case run es initial of Some s \<Rightarrow> s | None \<Rightarrow> initial)"

section \<open>Example data\<close>

text \<open>
  The record of the LoopNet scraper, the same record without an address and without a
  city, and a record with an empty city, no zipCode, no price and a zero sqft.
\<close>

definition loopnet_001 :: RawProperty where
  "loopnet_001 = \<lparr> raw_id = Some ''loopnet_001'', raw_source = Some ''LoopNet'',
      raw_address = Some ''250 Tech Square'', raw_city = Some ''Atlanta'', raw_state = Some ''GA'',
      raw_zipCode = Some ''30309'', raw_propertyType = Some ''Office'',
      raw_listingPrice = Some (Num 15500000), raw_sqft = Some (Num 125000) \<rparr>"

definition no_address :: RawProperty where
  "no_address = loopnet_001\<lparr> raw_address := None \<rparr>"

definition no_city :: RawProperty where
  "no_city = loopnet_001\<lparr> raw_source := Some ''RealtyRates'', raw_city := None \<rparr>"

definition sparse_record :: RawProperty where
  "sparse_record =
     \<lparr> raw_id = None, raw_source = Some ''LoopNet'', raw_address = Some ''12 Oak St'',
       raw_city = Some [], raw_state = Some ''georgia'', raw_zipCode = None,
       raw_propertyType = Some ''Strip Mall'', raw_listingPrice = None,
       raw_sqft = Some (Num 0) \<rparr>"

text \<open>
  A similarity function for the examples, which loses a tenth per character of difference
  in the length of the addresses, and records with an id, an address and a confidence.
\<close>

definition example_similarity :: similarity where
  "example_similarity p q =
     Num (1 - \<bar>of_nat (length (np_normalizedAddress p)) - of_nat (length (np_normalizedAddress q))\<bar> / 10)"

definition example_record :: "string \<Rightarrow> string \<Rightarrow> int \<Rightarrow> NormalizedProperty" where
  "example_record i a c =
     \<lparr> np_id = Some i, np_source = Some ''LoopNet'', np_normalizedAddress = a,
       np_city = ''Atlanta'', np_state = ''GA'', np_zipCode = ''30309'', np_propertyType = ''office'',
       np_listingPrice = Some (Num 100), np_sqft = Some (Num 10), np_pricePerSqft = Num 10,
       np_confidence = c, np_duplicateGroup = None \<rparr>"

definition record_a :: NormalizedProperty where
  "record_a = example_record ''a'' ''1 main st'' 80"

definition record_b :: NormalizedProperty where
  "record_b = example_record ''b'' ''1 main str'' 90"

definition record_c :: NormalizedProperty where
  "record_c = example_record ''c'' ''1 main stre'' 90"

definition example_group_id :: "nat \<Rightarrow> string" where
  "example_group_id k = ''group_'' @ replicate k CHR ''i''"

definition record_a2 :: NormalizedProperty where
  "record_a2 = example_record ''a'' ''9 far away road west'' 70"

text \<open>
  Four jobs of priorities 3, 1, 2, 1 enqueued on the empty queue; a job that fails at once
  with a single attempt, which leaves the scheduler in its pause with no job running; a
  job that fails and is re-inserted; two jobs, the second cancelled while it waits.
\<close>

definition four_jobs :: "event list" where
  "four_jobs =
     [AddJob 0 ''a'' scraping ''{}'' 3 3, AddJob 1 ''b'' scraping ''{}'' 1 3,
      AddJob 2 ''c'' scraping ''{}'' 2 3, AddJob 3 ''d'' scraping ''{}'' 1 3]"

definition failed_first :: "event list" where
  "failed_first =
     [AddJob 0 ''z'' scraping [] 3 1, Settles 0 ''z'' (Threw_Error ''no payload'')]"

definition retry_events :: "event list" where
  "retry_events =
     [AddJob 0 ''a'' scraping ''{}'' 3 3, Settles 10 ''a'' (Threw_Error ''network''),
      TimerFires 1000 0, TimerFires 5010 0]"

definition cancel_events :: "event list" where
  "cancel_events =
     [AddJob 0 ''a'' scraping ''{}'' 3 3, AddJob 1 ''b'' scraping ''{}'' 3 3, CancelJob 2 ''b'']"


section \<open>Confidence score\<close>

lemma falsy_string_missing: "falsy_string x = missing_string x"
  by (auto simp: falsy_string_def missing_string_def split: option.splits)

lemma falsy_number_or_le_zero:
  "(falsy_number x \<or> js_le_zero x) = (missing_number x \<or> non_positive x)"
  by (auto simp: falsy_number_def js_le_zero_def missing_number_def non_positive_def
      split: option.splits number.splits)

lemma if_penalty: "(if b then c - n else c) = c - penalty b n"
  by (simp add: penalty_def)

lemma if_bonus:
  "(if src = Some ''LoopNet'' then c + 10 else if src = Some ''Crexi'' then c + 5 else c)
   = c + source_bonus src"
  by (simp add: source_bonus_def)

lemma calculateConfidence_Some:
  assumes "raw_address r = Some a"
  shows "calculateConfidence r = Inr (confidence_score r)"
proof -
  have m: "(\<not> list_ex is_digit a) = (\<not> contains_digit (raw_address r))"
    and s: "(case raw_address r of None \<Rightarrow> False | Some a \<Rightarrow> length a < 10)
            = shorter_than 10 (raw_address r)"
    using assms by (simp_all add: contains_digit_def shorter_than_def)
  show ?thesis
    unfolding calculateConfidence_def confidence_score_def Let_def
      falsy_string_missing falsy_number_or_le_zero s
    by (simp only: assms on_string_def bind_result_def option.case sum.case m if_penalty if_bonus)
qed

lemma no_penalty_LoopNet:
  "no_penalty r \<Longrightarrow> raw_source r = Some ''LoopNet'' \<Longrightarrow> confidence_score r = 100"
  by (simp add: no_penalty_def confidence_score_def penalty_def source_bonus_def)


lemma calculateConfidence_None:
  assumes "raw_address r = None"
  shows "calculateConfidence r = Inl TypeError"
  unfolding calculateConfidence_def Let_def
  by (simp only: assms on_string_def bind_result_def option.case sum.case)




section \<open>Totality of the normalization functions\<close>

lemma isl_on_string: "isl (on_string x f) = (x = None)"
  by (simp add: on_string_def split: option.splits)

lemma isl_bind_result: "isl (bind_result r f) = (isl r \<or> (\<exists>v. r = Inr v \<and> isl (f v)))"
  by (cases r) (simp_all add: bind_result_def)

lemma isl_calculateConfidence: "isl (calculateConfidence r) = (raw_address r = None)"
  by (cases "raw_address r") (simp_all add: calculateConfidence_None calculateConfidence_Some)

lemma isl_normalizeZipCode_guarded:
  "\<not> isl (if \<not> falsy_string z then normalizeZipCode z else Inr ''00000'')"
  by (cases z) (simp_all add: normalizeZipCode_def on_string_def falsy_string_def)

lemma isl_normalizeProperty:
  "isl (normalizeProperty r) =
     (raw_address r = None \<or> raw_state r = None \<or> raw_propertyType r = None \<or> raw_city r = None)"
proof (cases "raw_address r")
  case None
  then show ?thesis
    by (simp add: normalizeProperty_def normalizeAddress_def on_string_def bind_result_def)
next
  case (Some a)
  then have "\<not> isl (calculateConfidence r)"
    by (simp add: isl_calculateConfidence)
  then obtain c where c: "calculateConfidence r = Inr c"
    by (cases "calculateConfidence r") auto
  obtain v where v: "(if \<not> falsy_string (raw_zipCode r) then normalizeZipCode (raw_zipCode r)
                  else Inr ''00000'') = Inr v"
    using isl_normalizeZipCode_guarded [of "raw_zipCode r"]
    by (cases "if \<not> falsy_string (raw_zipCode r) then normalizeZipCode (raw_zipCode r) else Inr ''00000''") auto
  show ?thesis
    unfolding normalizeProperty_def Let_def v c
    by (cases "raw_state r"; cases "raw_propertyType r"; cases "raw_city r")
       (simp_all add: Some bind_result_def normalizeAddress_def normalizeState_def
          normalizePropertyType_def on_string_def)
qed

lemma normalizeProperty_confidence:
  assumes "normalizeProperty r = Inr p"
  shows "calculateConfidence r = Inr (np_confidence p)"
  using assms unfolding normalizeProperty_def Let_def bind_result_def
  by (auto split: sum.splits)




section \<open>The empty batch\<close>

lemma findDuplicates_refs_Nil: "findDuplicates_refs sim threshold [] = []"
  unfolding findDuplicates_refs_def
  by (subst findDuplicates_outer.simps) simp

text \<open>
  Claim C10. On the empty list \<open>processDataBatch\<close> returns empty lists and four zero
  counts, and \<open>averageConfidence\<close> is the quotient 0/0, which is \<open>NaN\<close>, not 0.
\<close>

theorem processDataBatch_empty:
  "processDataBatch newGroupId sim [] =
     Inr \<lparr> normalizedProperties = [], batch_deduplicatedProperties = [],
           statistics = \<lparr> totalInput = 0, normalizedCount = 0, duplicatesFound = 0,
                          finalCount = 0, averageConfidence = NaN \<rparr> \<rparr>"
  by (simp add: processDataBatch_def bind_result_def deduplicateProperties_def
      findDuplicates_refs_Nil Let_def)

text \<open>The same for a particular similarity function and id generator.\<close>

theorem processDataBatch_empty_witness:
  "\<exists>b. processDataBatch (\<lambda>k. ''group_0'') example_similarity [] = Inr b \<and>
       averageConfidence (statistics b) = NaN \<and> averageConfidence (statistics b) \<noteq> Num 0 \<and>
       finalCount (statistics b) = 0"
  using processDataBatch_empty [of "\<lambda>k. ''group_0''" example_similarity]
  by simp

section \<open>The forward pass of findDuplicates\<close>

lemma upt_step: "j < n \<Longrightarrow> [j..<n] = j # [Suc j..<n]"
  by (simp add: upt_conv_Cons)

lemma findDuplicates_inner_join_seed:
  "j \<le> length properties \<Longrightarrow>
   findDuplicates_inner sim threshold properties i j (currentGroup, processed) =
     (case join_seed (\<lambda>k. np_id (properties ! k))
             (\<lambda>k. js_ge (sim (properties ! i) (properties ! k)) threshold)
             [j..<length properties] processed of
        (members, processed') \<Rightarrow> (currentGroup @ members, processed'))"
proof (induction sim threshold properties i j "(currentGroup, processed)"
    arbitrary: currentGroup processed rule: findDuplicates_inner.induct)
  case (1 sim threshold properties i j currentGroup processed)
  show ?case
  proof (cases "j < length properties")
    case True
    then have le: "j + 1 \<le> length properties" by simp
    note ih = "1.hyps"(1) [OF True _ le, simplified] "1.hyps"(2) [OF True _ _ le, simplified]
      "1.hyps"(3) [OF True _ _ le, simplified]
    show ?thesis
      by (subst findDuplicates_inner.simps)
         (auto simp: True upt_step [OF True] ih split: prod.splits)
  next
    case False
    with "1.prems" have "j = length properties" by simp
    then show ?thesis
      by (subst findDuplicates_inner.simps) simp
  qed
qed

lemma forward_pass_nonempty: "g \<in> set (forward_pass key similar xs processed) \<Longrightarrow> g \<noteq> []"
  by (induction xs arbitrary: processed) (auto split: if_splits prod.splits)

lemma findDuplicates_outer_forward_pass:
  "i \<le> length properties \<Longrightarrow>
   findDuplicates_outer sim threshold properties i (acc, processed) =
     acc @
     filter (\<lambda>g. 1 < length g)
       (forward_pass (\<lambda>k. np_id (properties ! k))
          (\<lambda>s k. js_ge (sim (properties ! s) (properties ! k)) threshold)
          [i..<length properties] processed)"
proof (induction sim threshold properties i "(acc, processed)"
    arbitrary: acc processed rule: findDuplicates_outer.induct)
  case (1 sim threshold properties i acc processed)
  show ?case
  proof (cases "i < length properties")
    case True
    then have le: "i + 1 \<le> length properties" by simp
    show ?thesis
    proof (cases "np_id (properties ! i) \<in> processed")
      case seen: True
      show ?thesis
        by (subst findDuplicates_outer.simps)
           (simp add: True seen upt_step [OF True] "1.hyps"(1) [OF True seen le, simplified])
    next
      case fresh: False
      obtain members processed' where js:
        "join_seed (\<lambda>k. np_id (properties ! k))
           (\<lambda>k. js_ge (sim (properties ! i) (properties ! k)) threshold)
           [i + 1..<length properties] (insert (np_id (properties ! i)) processed)
         = (members, processed')"
        by (cases "join_seed (\<lambda>k. np_id (properties ! k))
           (\<lambda>k. js_ge (sim (properties ! i) (properties ! k)) threshold)
           [i + 1..<length properties] (insert (np_id (properties ! i)) processed)") auto
      have inner: "findDuplicates_inner sim threshold properties i (i + 1)
              ([i], insert (np_id (properties ! i)) processed) = (i # members, processed')"
        using findDuplicates_inner_join_seed [OF le, of sim threshold i "[i]"] js by simp
      note ih = "1.hyps"(2) [OF True fresh inner [symmetric] le, simplified]
      show ?thesis
        using js
        by (subst findDuplicates_outer.simps)
           (simp add: True fresh upt_step [OF True] inner [simplified] ih)
    qed
  next
    case False
    with "1.prems" have "i = length properties" by simp
    then show ?thesis
      by (subst findDuplicates_outer.simps) simp
  qed
qed

lemma join_seed_map:
  "join_seed key similar (map f ys) processed =
     (case join_seed (\<lambda>a. key (f a)) (\<lambda>a. similar (f a)) ys processed of
        (members, processed') \<Rightarrow> (map f members, processed'))"
  by (induction ys arbitrary: processed) (auto split: prod.splits)

lemma forward_pass_map:
  "forward_pass key similar (map f xs) processed =
     map (map f) (forward_pass (\<lambda>a. key (f a)) (\<lambda>a b. similar (f a) (f b)) xs processed)"
  by (induction xs arbitrary: processed) (auto simp: join_seed_map split: prod.splits)

lemma findDuplicates_refs_forward_pass:
  "findDuplicates_refs sim threshold properties =
     filter (\<lambda>g. length g \<noteq> 1)
       (forward_pass (\<lambda>k. np_id (properties ! k))
          (\<lambda>s k. js_ge (sim (properties ! s) (properties ! k)) threshold)
          [0..<length properties] {})"
proof -
  have "filter (\<lambda>g. 1 < length g) gs = filter (\<lambda>g. length g \<noteq> 1) gs"
    if "\<forall>g\<in>set gs. g \<noteq> []" for gs :: "nat list list"
    using that by (induction gs) (auto simp: Suc_lessI)
  then show ?thesis
    unfolding findDuplicates_refs_def
    by (simp add: findDuplicates_outer_forward_pass forward_pass_nonempty)
qed

lemma findDuplicates_duplicate_groups:
  "findDuplicates sim threshold properties = duplicate_groups sim threshold properties"
proof -
  have "forward_pass np_id (\<lambda>seed r. js_ge (sim seed r) threshold)
          (map (\<lambda>i. properties ! i) [0..<length properties]) {} =
        map (map (\<lambda>i. properties ! i))
          (forward_pass (\<lambda>k. np_id (properties ! k))
             (\<lambda>s k. js_ge (sim (properties ! s) (properties ! k)) threshold)
             [0..<length properties] {})"
    by (rule forward_pass_map)
  then show ?thesis
    unfolding findDuplicates_def duplicate_groups_def findDuplicates_refs_forward_pass
    by (simp add: map_nth filter_map comp_def)
qed

lemma duplicate_groups_size:
  assumes "g \<in> set (duplicate_groups sim threshold records)"
  shows "2 \<le> length g"
proof -
  from assms have "g \<noteq> []" and "length g \<noteq> 1"
    by (auto simp: duplicate_groups_def dest: forward_pass_nonempty)
  then have "length g \<noteq> 0" and "length g \<noteq> 1"
    by simp_all
  then show ?thesis
    by arith
qed


text \<open>
  Claim C5. For every list of records, every similarity function and every threshold,
  \<open>findDuplicates\<close> returns the groups of the specification's forward pass: each record
  not yet processed seeds a group and is marked processed, every later unprocessed
  record whose similarity with the seed is at least the threshold joins the group and is
  marked processed, and groups of one member are dropped, so that every returned group has
  at least two members.
\<close>

theorem findDuplicates_forward_pass:
  "findDuplicates sim threshold records = duplicate_groups sim threshold records \<and>
   (\<forall>g\<in>set (findDuplicates sim threshold records). 2 \<le> length g)"
  by (simp add: findDuplicates_duplicate_groups duplicate_groups_size)

lemma example_groups:
  "duplicate_groups example_similarity default_threshold [record_a, record_b, record_c]
     = [[record_a, record_b]]"
  by code_simp

text \<open>On the three example records the pass returns the group of the first two.\<close>

theorem findDuplicates_forward_pass_witness:
  "findDuplicates example_similarity default_threshold [record_a, record_b, record_c]
     = [[record_a, record_b]]"
  using findDuplicates_forward_pass [of example_similarity default_threshold
      "[record_a, record_b, record_c]"]
  by (simp add: example_groups)

lemma js_lt_not_ge: "js_lt x t \<Longrightarrow> \<not> js_ge x t"
  by (cases x; cases t) auto

lemma upt_three: "[0..<Suc (Suc (Suc 0))] = [0, Suc 0, Suc (Suc 0)]"
  by (simp add: upt_rec)

lemma join_seed_similar:
  "join_seed key similar ys processed = (members, processed') \<Longrightarrow> m \<in> set members \<Longrightarrow> similar m"
  by (induction ys arbitrary: processed members) (auto split: if_splits prod.splits)

lemma forward_pass_similar:
  "g \<in> set (forward_pass key similar xs processed) \<Longrightarrow> m \<in> set (tl g) \<Longrightarrow> similar (hd g) m"
  by (induction xs arbitrary: processed)
     (auto split: if_splits prod.splits dest: join_seed_similar [OF sym])

lemma findDuplicates_refs_similar:
  assumes "g \<in> set (findDuplicates_refs sim threshold records)" and "m \<in> set (tl g)"
  shows "js_ge (sim (records ! hd g) (records ! m)) threshold"
  using assms forward_pass_similar [of g "\<lambda>k. np_id (records ! k)"
      "\<lambda>s k. js_ge (sim (records ! s) (records ! k)) threshold" "[0..<length records]" "{}" m]
  by (simp add: findDuplicates_refs_forward_pass)

text \<open>
  Claim C6, as amended. A group of \<open>findDuplicates\<close> is its seed followed by records that
  are each similar to the seed at the threshold: a record is compared with the seed
  only. For records A, B, C in that order, A and B with different ids, with
  \<open>sim(A,B) >= threshold\<close> and \<open>sim(A,C) < threshold\<close>, the result is the one group
  of A and B, whatever \<open>sim(B,C)\<close> is: C is not grouped into A's cluster.
\<close>

theorem findDuplicates_seed_only:
  "(\<forall>g\<in>set (findDuplicates_refs sim threshold records). \<forall>m\<in>set (tl g).
      js_ge (sim (records ! hd g) (records ! m)) threshold) \<and>
   (js_ge (sim A B) threshold \<and> js_lt (sim A C) threshold \<and> np_id A \<noteq> np_id B \<longrightarrow>
      findDuplicates_refs sim threshold [A, B, C] = [[0, 1]] \<and>
      findDuplicates sim threshold [A, B, C] = [[A, B]])"
proof -
  have "findDuplicates_refs sim threshold [A, B, C] = [[0, 1]]"
    if "js_ge (sim A B) threshold" and "js_lt (sim A C) threshold" and "np_id A \<noteq> np_id B"
    using that(1,3) js_lt_not_ge [OF that(2)]
    by (auto simp: findDuplicates_refs_forward_pass upt_three)
  then show ?thesis
    by (auto simp: findDuplicates_def findDuplicates_refs_similar)
qed

text \<open>
  Claim C6 as stated fails: there are no records A, B, C with \<open>sim(A,B)\<close> and
  \<open>sim(B,C)\<close> at the threshold and \<open>sim(A,C)\<close> below it for which \<open>findDuplicates\<close>,
  given A, B, C in that order, puts the first and the third record in one group.
\<close>

theorem findDuplicates_no_chain:
  "\<not> (\<exists>sim threshold A B C.
        js_ge (sim A B) threshold \<and> js_ge (sim B C) threshold \<and> js_lt (sim A C) threshold \<and>
        (\<exists>g\<in>set (findDuplicates_refs sim threshold [A, B, C]). 0 \<in> set g \<and> 2 \<in> set g))"
  by (auto simp: findDuplicates_refs_forward_pass upt_three dest: js_lt_not_ge split: if_splits)

text \<open>Three addresses of 9, 10 and 11 characters: neighbours are similar, the ends are not.\<close>

theorem findDuplicates_seed_only_witness:
  "js_ge (example_similarity record_a record_b) default_threshold \<and>
   js_ge (example_similarity record_b record_c) default_threshold \<and>
   js_lt (example_similarity record_a record_c) default_threshold \<and>
   np_id record_a \<noteq> np_id record_b \<and>
   findDuplicates example_similarity default_threshold [record_a, record_b, record_c]
     = [[record_a, record_b]]"
proof -
  have h1: "js_ge (example_similarity record_a record_b) default_threshold"
    by code_simp
  have h2: "js_ge (example_similarity record_b record_c) default_threshold"
    by code_simp
  have h3: "js_lt (example_similarity record_a record_c) default_threshold"
    by code_simp
  have h4: "np_id record_a \<noteq> np_id record_b"
    by code_simp
  from findDuplicates_seed_only [where sim = example_similarity and A = record_a
      and B = record_b and C = record_c and threshold = default_threshold]
    h1 h2 h3 h4 show ?thesis
    by simp
qed

section \<open>Survivors of deduplicateProperties\<close>

lemma join_seed_keys:
  "join_seed key similar ys processed = (members, processed') \<Longrightarrow>
   distinct (map key members) \<and> key ` set members \<inter> processed = {} \<and>
   processed' = processed \<union> key ` set members \<and> set members \<subseteq> set ys"
proof (induction ys arbitrary: processed members)
  case Nil
  then show ?case by simp
next
  case (Cons y ys)
  show ?case
  proof (cases "key y \<notin> processed \<and> similar y")
    case True
    obtain ms where ms: "join_seed key similar ys (insert (key y) processed) = (ms, processed')"
      and m: "members = y # ms"
      using Cons.prems True by (auto split: prod.splits)
    from Cons.IH [OF ms] True m show ?thesis
      by auto
  next
    case False
    then have "join_seed key similar ys processed = (members, processed')"
      using Cons.prems by auto
    from Cons.IH [OF this] show ?thesis
      by auto
  qed
qed

lemma forward_pass_keys:
  "distinct (map key (concat (forward_pass key similar xs processed))) \<and>
   key ` set (concat (forward_pass key similar xs processed)) \<inter> processed = {} \<and>
   set (concat (forward_pass key similar xs processed)) \<subseteq> set xs"
proof (induction xs arbitrary: processed)
  case Nil
  then show ?case by simp
next
  case (Cons x xs)
  show ?case
  proof (cases "key x \<in> processed")
    case True
    with Cons.IH [of processed] show ?thesis
      by auto
  next
    case False
    obtain ms processed' where js:
      "join_seed key (similar x) xs (insert (key x) processed) = (ms, processed')"
      by (cases "join_seed key (similar x) xs (insert (key x) processed)") auto
    let ?R = "concat (forward_pass key similar xs processed')"
    from join_seed_keys [OF js]
    have k1: "distinct (map key ms)" and k2: "key ` set ms \<inter> insert (key x) processed = {}"
      and k3: "processed' = insert (key x) processed \<union> key ` set ms" and k4: "set ms \<subseteq> set xs"
      by blast+
    from Cons.IH [of processed']
    have r1: "distinct (map key ?R)" and r2: "key ` set ?R \<inter> processed' = {}"
      and r3: "set ?R \<subseteq> set xs"
      by blast+
    have fp: "concat (forward_pass key similar (x # xs) processed) = x # ms @ ?R"
      using False js by simp
    have a: "key x \<notin> key ` set ms"
      using k2 by blast
    have b: "key x \<notin> key ` set ?R"
      using r2 k3 by blast
    have c: "key ` set ms \<inter> key ` set ?R = {}"
      using r2 k3 by blast
    have d: "key ` set (x # ms @ ?R) \<inter> processed = {}"
      using False k2 r2 k3 unfolding list.set set_append by blast
    have e: "set (x # ms @ ?R) \<subseteq> set (x # xs)"
      using k4 r3 unfolding list.set set_append by blast
    have "distinct (map key (x # ms @ ?R))"
      using a b c k1 r1 by simp
    with d e show ?thesis
      unfolding fp by blast
  qed
qed

lemma distinct_concat_filter:
  "distinct (map f (concat gs)) \<Longrightarrow> distinct (map f (concat (filter Q gs)))"
  by (induction gs) auto

lemma findDuplicates_refs_wf:
  "distinct (map (\<lambda>k. np_id (records ! k)) (concat (findDuplicates_refs sim threshold records))) \<and>
   (\<forall>g\<in>set (findDuplicates_refs sim threshold records).
      g \<noteq> [] \<and> (\<forall>i\<in>set g. i < length records))"
proof -
  let ?fp = "forward_pass (\<lambda>k. np_id (records ! k))
          (\<lambda>s k. js_ge (sim (records ! s) (records ! k)) threshold)
          [0..<length records] {}"
  note k = forward_pass_keys [of "\<lambda>k. np_id (records ! k)"
      "\<lambda>s k. js_ge (sim (records ! s) (records ! k)) threshold" "[0..<length records]" "{}"]
  have r: "findDuplicates_refs sim threshold records = filter (\<lambda>g. length g \<noteq> 1) ?fp"
    by (rule findDuplicates_refs_forward_pass)
  have d: "distinct (map (\<lambda>k. np_id (records ! k)) (concat (filter (\<lambda>g. length g \<noteq> 1) ?fp)))"
    using k by (intro distinct_concat_filter) simp
  have "i < length records" if "g \<in> set ?fp" and "i \<in> set g" for g i
    using k that by auto
  moreover have "g \<noteq> []" if "g \<in> set ?fp" for g
    using that by (rule forward_pass_nonempty)
  ultimately show ?thesis
    unfolding r using d by auto
qed

lemma length_set_duplicateGroup [simp]:
  "length (set_duplicateGroup groupId i heap) = length heap"
  by (simp add: set_duplicateGroup_def)

lemma length_fold_set_duplicateGroup [simp]:
  "length (fold (set_duplicateGroup groupId) g heap) = length heap"
  by (induction g arbitrary: heap) auto

lemma nth_set_duplicateGroup:
  "i < length heap \<Longrightarrow>
   set_duplicateGroup groupId a heap ! i = (if i = a then tag groupId (heap ! i) else heap ! i)"
  by (simp add: set_duplicateGroup_def tag_def)

lemma tag_tag [simp]: "tag groupId (tag groupId r) = tag groupId r"
  by (simp add: tag_def)

lemma np_confidence_tag [simp]: "np_confidence (tag groupId r) = np_confidence r"
  by (simp add: tag_def)

lemma nth_fold_set_duplicateGroup:
  "i < length heap \<Longrightarrow>
   fold (set_duplicateGroup groupId) g heap ! i =
     (if i \<in> set g then tag groupId (heap ! i) else heap ! i)"
  by (induction g arbitrary: heap) (auto simp: nth_set_duplicateGroup)


lemma reduce_best_best_ref: "g \<noteq> [] \<Longrightarrow> reduce_best heap g = Inr (best_ref heap g)"
  by (cases g) (simp_all add: reduce_best_def best_ref_def)

lemma fold_best_mem:
  "fold (\<lambda>current best. if f current > (f best :: int) then current else best) is i \<in> set (i # is)"
  by (induction "is" arbitrary: i) auto

lemma best_ref_mem: "g \<noteq> [] \<Longrightarrow> best_ref heap g \<in> set g"
  using fold_best_mem [of "\<lambda>i. np_confidence (heap ! i)" "tl g" "hd g"]
  by (cases g) (simp_all add: best_ref_def)

lemma fold_best_cong:
  "\<forall>j\<in>set (i # is). f j = (f' j :: int) \<Longrightarrow>
   fold (\<lambda>current best. if f current > f best then current else best) is i =
   fold (\<lambda>current best. if f' current > f' best then current else best) is i"
  by (induction "is" arbitrary: i) auto

lemma best_ref_cong:
  assumes "g \<noteq> []" and "\<forall>j\<in>set g. np_confidence (heap' ! j) = np_confidence (heap ! j)"
  shows "best_ref heap' g = best_ref heap g"
  using assms fold_best_cong [of "hd g" "tl g" "\<lambda>j. np_confidence (heap' ! j)"
      "\<lambda>j. np_confidence (heap ! j)"]
  by (cases g) (simp_all add: best_ref_def)

lemma nth_fold_best:
  "heap ! fold (\<lambda>current best.
             if np_confidence (heap ! current) > np_confidence (heap ! best) then current else best) is i =
   fold (\<lambda>current best. if np_confidence current > np_confidence best then current else best)
     (map (\<lambda>j. heap ! j) is) (heap ! i)"
  by (induction "is" arbitrary: i) auto

lemma find_Some_holds: "find P xs = Some r \<Longrightarrow> P r \<and> r \<in> set xs"
  by (induction xs) (auto split: if_splits)

lemma find_stronger:
  "find P xs = Some r \<Longrightarrow> (\<And>y. y \<in> set xs \<Longrightarrow> P' y \<Longrightarrow> P y) \<Longrightarrow> P' r \<Longrightarrow> find P' xs = Some r"
  by (induction xs) (auto split: if_splits)

lemma find_append_Some: "find P xs = Some r \<Longrightarrow> find P (xs @ ys) = Some r"
  by (induction xs) (auto split: if_splits)

lemma find_append_None: "\<forall>y\<in>set xs. \<not> P y \<Longrightarrow> find P (xs @ ys) = find P ys"
  by (induction xs) auto

lemma fold_best_first_highest:
  "find (\<lambda>r. list_all (\<lambda>q. np_confidence q \<le> np_confidence r) (first # rest)) (first # rest) =
   Some (fold (\<lambda>current best. if np_confidence current > np_confidence best then current else best)
           rest first)"
proof (induction rest rule: rev_induct)
  case Nil
  show ?case by simp
next
  case (snoc x rest)
  let ?step = "\<lambda>current best. if np_confidence current > (np_confidence best :: int) then current else best"
  let ?r = "fold ?step rest first"
  let ?P = "\<lambda>r. list_all (\<lambda>q. np_confidence q \<le> np_confidence r) (first # rest)"
  let ?P' = "\<lambda>r. list_all (\<lambda>q. np_confidence q \<le> np_confidence r) (first # rest @ [x])"
  from find_Some_holds [OF snoc.IH] have r: "?P ?r"
    by blast
  have P': "?P' y = (?P y \<and> np_confidence x \<le> np_confidence y)" for y
    by auto
  show ?case
  proof (cases "np_confidence x > np_confidence ?r")
    case True
    have "\<forall>y\<in>set (first # rest). \<not> ?P' y"
      using r True by (auto simp: list_all_iff)
    then have "find ?P' ((first # rest) @ [x]) = find ?P' [x]"
      by (rule find_append_None)
    moreover have "?P' x"
      using r True by (auto simp: list_all_iff)
    ultimately show ?thesis
      using True by simp
  next
    case False
    have "find ?P' (first # rest) = Some ?r"
      using snoc.IH
    proof (rule find_stronger)
      show "?P' ?r" using r False by (simp add: P')
    qed (simp add: P')
    then have "find ?P' ((first # rest) @ [x]) = Some ?r"
      by (rule find_append_Some)
    then show ?thesis
      using False by simp
  qed
qed

lemma highest_confidence_best_ref:
  assumes "g \<noteq> []"
  shows "highest_confidence (map (\<lambda>i. heap ! i) g) = Some (heap ! best_ref heap g)"
proof -
  obtain i "is" where g: "g = i # is"
    using assms by (cases g) auto
  show ?thesis
    unfolding highest_confidence_def g best_ref_def
    by (simp only: list.map list.sel nth_fold_best fold_best_first_highest)
qed


lemma dedup_groups_result:
  assumes "\<forall>g\<in>set grps. g \<noteq> [] \<and> (\<forall>i\<in>set g. i < length heap)"
    and "distinct (concat grps)"
  shows "\<exists>heap'.
           dedup_groups gen k grps (heap, dd) = Inr (heap', dd @ map (best_ref heap) grps) \<and>
           length heap' = length heap \<and>
           (\<forall>i<length heap. np_confidence (heap' ! i) = np_confidence (heap ! i)) \<and>
           (\<forall>i<length heap. i \<notin> set (concat grps) \<longrightarrow> heap' ! i = heap ! i) \<and>
           (\<forall>j<length grps. \<forall>i\<in>set (grps ! j). heap' ! i = tag (gen (k + j)) (heap ! i))"
  using assms
proof (induction grps arbitrary: heap k dd)
  case Nil
  then show ?case by simp
next
  case (Cons g gs)
  let ?b = "best_ref heap g"
  let ?h1 = "fold (set_duplicateGroup (gen k)) g heap"
  let ?h2 = "set_duplicateGroup (gen k) ?b ?h1"
  from Cons.prems have g: "g \<noteq> []" and gi: "\<forall>i\<in>set g. i < length heap"
    and gsi: "\<forall>g'\<in>set gs. g' \<noteq> [] \<and> (\<forall>i\<in>set g'. i < length heap)"
    and d: "distinct (concat gs)" and dj: "set g \<inter> set (concat gs) = {}"
    by auto
  have b: "?b \<in> set g"
    using g by (rule best_ref_mem)
  have rb: "reduce_best heap g = Inr ?b"
    using g by (rule reduce_best_best_ref)
  have h2: "?h2 ! i = (if i \<in> set g then tag (gen k) (heap ! i) else heap ! i)"
    if "i < length heap" for i
    using that b by (auto simp: nth_set_duplicateGroup nth_fold_set_duplicateGroup)
  have len2: "length ?h2 = length heap"
    by simp
  have conf2: "np_confidence (?h2 ! i) = np_confidence (heap ! i)" if "i < length heap" for i
    using h2 [OF that] by simp
  have gs2: "\<forall>g'\<in>set gs. g' \<noteq> [] \<and> (\<forall>i\<in>set g'. i < length ?h2)"
    using gsi by simp
  from Cons.IH [OF gs2 d, of "k + 1" "dd @ [?b]"] obtain heap' where
    run: "dedup_groups gen (k + 1) gs (?h2, dd @ [?b]) =
            Inr (heap', (dd @ [?b]) @ map (best_ref ?h2) gs)"
    and len: "length heap' = length ?h2"
    and conf: "\<forall>i<length ?h2. np_confidence (heap' ! i) = np_confidence (?h2 ! i)"
    and keep: "\<forall>i<length ?h2. i \<notin> set (concat gs) \<longrightarrow> heap' ! i = ?h2 ! i"
    and tagged: "\<forall>j<length gs. \<forall>i\<in>set (gs ! j). heap' ! i = tag (gen (k + 1 + j)) (?h2 ! i)"
    by blast
  have same: "map (best_ref ?h2) gs = map (best_ref heap) gs"
  proof (rule map_cong [OF refl])
    fix g' assume "g' \<in> set gs"
    with gsi have "g' \<noteq> []" and "\<forall>j\<in>set g'. j < length heap"
      by auto
    then show "best_ref ?h2 g' = best_ref heap g'"
      using conf2 by (intro best_ref_cong) auto
  qed
  have step: "dedup_groups gen k (g # gs) (heap, dd) =
                Inr (heap', dd @ map (best_ref heap) (g # gs))"
    using rb run same by (simp add: bind_result_def Let_def)
  have c: "np_confidence (heap' ! i) = np_confidence (heap ! i)" if "i < length heap" for i
    using conf conf2 that by simp
  have k: "heap' ! i = heap ! i" if "i < length heap" and "i \<notin> set (concat (g # gs))" for i
    using keep h2 that by simp
  have t: "heap' ! i = tag (gen (k + j)) (heap ! i)"
    if "j < length (g # gs)" and "i \<in> set ((g # gs) ! j)" for i j
  proof (cases j)
    case 0
    with that have ig: "i \<in> set g" by simp
    with gi dj have "i < length heap" and "i \<notin> set (concat gs)" by auto
    with keep h2 ig 0 show ?thesis by simp
  next
    case (Suc j')
    with that have j': "j' < length gs" and ij: "i \<in> set (gs ! j')" by simp_all
    then have mem: "gs ! j' \<in> set gs" by simp
    with ij have ic: "i \<in> set (concat gs)" by auto
    with dj have ng: "i \<notin> set g" by auto
    from mem ij gsi have il: "i < length heap" by auto
    from tagged j' ij have "heap' ! i = tag (gen (k + 1 + j')) (?h2 ! i)" by simp
    with h2 [OF il] ng Suc show ?thesis by simp
  qed
  show ?case
    using step len c k t by (intro exI [of _ heap']) simp
qed


lemma map_nth_filter:
  "map (\<lambda>i. xs ! i) (filter (\<lambda>i. P (xs ! i)) [0..<length xs]) = filter P xs"
proof -
  have "filter P (map (\<lambda>i. xs ! i) [0..<length xs]) =
        map (\<lambda>i. xs ! i) (filter (P \<circ> (\<lambda>i. xs ! i)) [0..<length xs])"
    by (rule filter_map)
  then show ?thesis
    by (simp add: map_nth comp_def)
qed

lemma map_by_index: "map f xs = map (\<lambda>k. f (xs ! k)) [0..<length xs]"
  by (rule nth_equalityI) simp_all



lemma example_findDuplicates:
  "findDuplicates example_similarity default_threshold [record_a, record_b, record_c]
     = [[record_a, record_b]]"
  by (simp add: findDuplicates_duplicate_groups example_groups)



section \<open>Effects of the queue operations\<close>

lemma requeue_ids_append [simp]: "requeue_ids (xs @ ys) = requeue_ids xs @ requeue_ids ys"
  by (induction xs rule: requeue_ids.induct) auto

lemma keys_map_entry [simp]: "map fst (AList.map_entry k f xs) = map fst xs"
  by (induction xs) auto

lemma map_of_map_entry_at:
  "map_of (AList.map_entry k f xs) k' =
     (if k' = k then map_option f (map_of xs k) else map_of xs k')"
  by (induction xs) auto

lemma getJob_other_fields [simp]:
  "getJob (s\<lparr> queue := q \<rparr>) = getJob s"
  "getJob (s\<lparr> runningJobs := r \<rparr>) = getJob s"
  "getJob (s\<lparr> timers := t \<rparr>) = getJob s"
  "getJob (s\<lparr> isProcessing := b \<rparr>) = getJob s"
  "getJob (s\<lparr> executions := e \<rparr>) = getJob s"
  "getJob (s\<lparr> progressCallbacks := c \<rparr>) = getJob s"
  "getJob (s\<lparr> progress := p \<rparr>) = getJob s"
  by (simp_all add: getJob_def fun_eq_iff)

lemma getJobStatus_other_fields [simp]:
  "getJobStatus (s\<lparr> queue := q \<rparr>) = getJobStatus s"
  "getJobStatus (s\<lparr> runningJobs := r \<rparr>) = getJobStatus s"
  "getJobStatus (s\<lparr> timers := t \<rparr>) = getJobStatus s"
  "getJobStatus (s\<lparr> isProcessing := b \<rparr>) = getJobStatus s"
  "getJobStatus (s\<lparr> executions := e \<rparr>) = getJobStatus s"
  "getJobStatus (s\<lparr> progressCallbacks := c \<rparr>) = getJobStatus s"
  "getJobStatus (s\<lparr> progress := p \<rparr>) = getJobStatus s"
  by (simp_all add: getJobStatus_def fun_eq_iff)

lemma update_job_fields [simp]:
  "queue (update_job j f s) = queue s"
  "runningJobs (update_job j f s) = runningJobs s"
  "timers (update_job j f s) = timers s"
  "isProcessing (update_job j f s) = isProcessing s"
  "executions (update_job j f s) = executions s"
  "progressCallbacks (update_job j f s) = progressCallbacks s"
  "map fst (jobs (update_job j f s)) = map fst (jobs s)"
  by (simp_all add: update_job_def)

lemma getJob_update_job:
  "getJob (update_job j f s) k = (if k = j then map_option f (getJob s j) else getJob s k)"
  by (simp add: getJob_def update_job_def map_of_map_entry_at)

lemma getJobStatus_update_job:
  "getJobStatus (update_job j f s) k =
     (if k = j then map_option (\<lambda>job. status (f job)) (getJob s j) else getJobStatus s k)"
  by (simp add: getJobStatus_def getJob_update_job split: option.splits)

lemma updateProgress_fields [simp]:
  "queue (updateProgress j p m s) = queue s"
  "runningJobs (updateProgress j p m s) = runningJobs s"
  "timers (updateProgress j p m s) = timers s"
  "isProcessing (updateProgress j p m s) = isProcessing s"
  "executions (updateProgress j p m s) = executions s"
  "jobs (updateProgress j p m s) = jobs s"
  by (simp_all add: updateProgress_def)

lemma getJob_updateProgress [simp]: "getJob (updateProgress j p m s) = getJob s"
  by (simp add: updateProgress_def)

lemma getJobStatus_updateProgress [simp]: "getJobStatus (updateProgress j p m s) = getJobStatus s"
  by (simp add: updateProgress_def)

lemma executeJob_start_fields [simp]:
  "queue (executeJob_start now j s) = queue s"
  "runningJobs (executeJob_start now j s) = runningJobs s"
  "timers (executeJob_start now j s) = timers s"
  "isProcessing (executeJob_start now j s) = isProcessing s"
  "executions (executeJob_start now j s) = executions s @ [j]"
  "map fst (jobs (executeJob_start now j s)) = map fst (jobs s)"
  by (simp_all add: executeJob_start_def Let_def)

lemma getJob_executeJob_start:
  "getJob (executeJob_start now j s) k =
     (if k = j
      then map_option (\<lambda>job. job\<lparr> status := running, startedAt := Some now,
                                    attempts := attempts job + 1 \<rparr>) (getJob s j)
      else getJob s k)"
  by (simp add: executeJob_start_def Let_def getJob_update_job)

lemma getJobStatus_executeJob_start:
  "getJobStatus (executeJob_start now j s) k =
     (if k = j then map_option (\<lambda>job. running) (getJob s j) else getJobStatus s k)"
  by (simp add: getJobStatus_def getJob_executeJob_start split: option.splits)

lemma getJob_None_iff_key: "(getJob s j = None) = (j \<notin> fst ` set (jobs s))"
  by (simp add: getJob_def map_of_eq_None_iff)

lemma getJob_Some_iff_key: "(\<exists>job. getJob s j = Some job) = (j \<in> fst ` set (jobs s))"
  using getJob_None_iff_key [of s j] by auto

lemma set_insert_sorted [simp]: "set (insert_sorted cmp x ys) = insert x (set ys)"
  by (induction ys) auto

lemma distinct_insert_sorted [simp]:
  "distinct (insert_sorted cmp x ys) = (x \<notin> set ys \<and> distinct ys)"
  by (induction ys) auto

lemma length_insert_sorted [simp]: "length (insert_sorted cmp x ys) = Suc (length ys)"
  by (induction ys) auto

lemma stable_sort_simps [simp]:
  "stable_sort cmp [] = []"
  "stable_sort cmp (x # xs) = insert_sorted cmp x (stable_sort cmp xs)"
  by (simp_all add: stable_sort_def)

lemma set_stable_sort [simp]: "set (stable_sort cmp xs) = set xs"
  by (induction xs) auto

lemma distinct_stable_sort [simp]: "distinct (stable_sort cmp xs) = distinct xs"
  by (induction xs) auto

lemma length_stable_sort [simp]: "length (stable_sort cmp xs) = length xs"
  by (induction xs) auto

lemma sortQueue_fields [simp]:
  "jobs (sortQueue s) = jobs s"
  "runningJobs (sortQueue s) = runningJobs s"
  "timers (sortQueue s) = timers s"
  "isProcessing (sortQueue s) = isProcessing s"
  "executions (sortQueue s) = executions s"
  "set (queue (sortQueue s)) = set (queue s)"
  "distinct (queue (sortQueue s)) = distinct (queue s)"
  by (simp_all add: sortQueue_def)

lemma getJob_sortQueue [simp]: "getJob (sortQueue s) = getJob s"
  by (simp add: sortQueue_def)

lemma getJobStatus_sortQueue [simp]: "getJobStatus (sortQueue s) = getJobStatus s"
  by (simp add: sortQueue_def)


lemma dispatch_invariant:
  assumes "queue_invariant s" and "queue s = j # q" and "length (runningJobs s) < maxConcurrentJobs"
  shows "j \<notin> set (runningJobs s) \<and>
         queue_invariant
           (executeJob_start now j (s\<lparr> queue := q, runningJobs := runningJobs s @ [j] \<rparr>))"
proof -
  from assms have "j \<in> fst ` set (jobs s)"
    by (simp add: queue_invariant_def)
  then obtain job where key: "getJob s j = Some job"
    using getJob_Some_iff_key [of s j] by blast
  from assms(1,2) have "j \<notin> set (runningJobs s)"
    by (auto simp: queue_invariant_def)
  moreover have "queue_invariant
           (executeJob_start now j (s\<lparr> queue := q, runningJobs := runningJobs s @ [j] \<rparr>))"
    using assms key
    by (auto simp: queue_invariant_def getJobStatus_executeJob_start)
  ultimately show ?thesis
    by simp
qed

lemma processQueue_loop_invariant:
  "queue_invariant s \<Longrightarrow> queue_invariant (processQueue_loop now s)"
proof (induction now s rule: processQueue_loop.induct)
  case (1 now s)
  show ?case
  proof (cases "queue s \<noteq> [] \<and> length (runningJobs s) < maxConcurrentJobs")
    case True
    then obtain j q where q: "queue s = j # q"
      by (cases "queue s") auto
    from dispatch_invariant [OF "1.prems" q, of now] True
    have nr: "j \<notin> set (runningJobs s)"
      and inv: "queue_invariant
           (executeJob_start now j (s\<lparr> queue := q, runningJobs := runningJobs s @ [j] \<rparr>))"
      by simp_all
    have "processQueue_loop now s = processQueue_loop now
            (executeJob_start now j (s\<lparr> queue := q, runningJobs := runningJobs s @ [j] \<rparr>))"
      using True q nr by (subst processQueue_loop.simps) (simp add: Let_def)
    moreover have "queue_invariant (processQueue_loop now
            (executeJob_start now j (s\<lparr> queue := q, runningJobs := runningJobs s @ [j] \<rparr>)))"
      using "1.IH"(2) [OF True refl refl _ ] True q nr inv by (simp add: Let_def)
    ultimately show ?thesis
      by simp
  next
    case False
    then have "processQueue_loop now s = s"
      by (subst processQueue_loop.simps) auto
    with "1.prems" show ?thesis
      by simp
  qed
qed

lemma processQueue_loop_fields:
  "timers (processQueue_loop now s) = timers s \<and>
   isProcessing (processQueue_loop now s) = isProcessing s \<and>
   map fst (jobs (processQueue_loop now s)) = map fst (jobs s)"
proof (induction now s rule: processQueue_loop.induct)
  case (1 now s)
  show ?case
  proof (cases "queue s \<noteq> [] \<and> length (runningJobs s) < maxConcurrentJobs")
    case True
    show ?thesis
      using "1.IH"(1) [OF True refl refl] "1.IH"(2) [OF True refl refl] True
      by (subst (1 2 3) processQueue_loop.simps) (auto simp: Let_def)
  next
    case False
    then have "processQueue_loop now s = s"
      by (subst processQueue_loop.simps) auto
    then show ?thesis
      by simp
  qed
qed

lemma processQueue_loop_dispatches:
  assumes "distinct (queue s)" and "set (queue s) \<inter> set (runningJobs s) = {}"
  shows "executions (processQueue_loop now s) =
           executions s @ take (maxConcurrentJobs - length (runningJobs s)) (queue s) \<and>
         queue (processQueue_loop now s) =
           drop (maxConcurrentJobs - length (runningJobs s)) (queue s) \<and>
         runningJobs (processQueue_loop now s) =
           runningJobs s @ take (maxConcurrentJobs - length (runningJobs s)) (queue s)"
  using assms
proof (induction now s rule: processQueue_loop.induct)
  case (1 now s)
  show ?case
  proof (cases "queue s \<noteq> [] \<and> length (runningJobs s) < maxConcurrentJobs")
    case True
    then obtain j q where q: "queue s = j # q"
      by (cases "queue s") auto
    let ?s' = "executeJob_start now j (s\<lparr> queue := q, runningJobs := runningJobs s @ [j] \<rparr>)"
    from "1.prems" q have nr: "j \<notin> set (runningJobs s)"
      and d: "distinct (queue ?s')" and i: "set (queue ?s') \<inter> set (runningJobs ?s') = {}"
      by auto
    have unfold: "processQueue_loop now s = processQueue_loop now ?s'"
      using True q nr by (subst processQueue_loop.simps) (simp add: Let_def)
    from True have "length (runningJobs s) < maxConcurrentJobs"
      by simp
    then have k: "maxConcurrentJobs - length (runningJobs s) =
             Suc (maxConcurrentJobs - length (runningJobs ?s'))"
      by simp
    from "1.IH"(2) [OF True refl refl _ ] True q nr d i
    have "executions (processQueue_loop now ?s') =
           executions ?s' @ take (maxConcurrentJobs - length (runningJobs ?s')) (queue ?s') \<and>
         queue (processQueue_loop now ?s') =
           drop (maxConcurrentJobs - length (runningJobs ?s')) (queue ?s') \<and>
         runningJobs (processQueue_loop now ?s') =
           runningJobs ?s' @ take (maxConcurrentJobs - length (runningJobs ?s')) (queue ?s')"
      by (simp add: Let_def)
    then show ?thesis
      unfolding unfold k by (simp add: q)
  next
    case False
    then have "processQueue_loop now s = s"
      by (subst processQueue_loop.simps) auto
    with False show ?thesis
      by auto
  qed
qed


lemma queue_invariant_timer:
  "queue_invariant (s\<lparr> timers := timers s @ [(due, Reschedule)] \<rparr>) = queue_invariant s"
  by (simp add: queue_invariant_def)

lemma queue_invariant_isProcessing:
  "queue_invariant (s\<lparr> isProcessing := b \<rparr>) = queue_invariant s"
  by (simp add: queue_invariant_def)

lemma processQueue_invariant: "queue_invariant s \<Longrightarrow> queue_invariant (processQueue now s)"
  by (simp add: processQueue_def Let_def queue_invariant_timer processQueue_loop_invariant
      queue_invariant_isProcessing)

lemma sortQueue_invariant: "queue_invariant (sortQueue s) = queue_invariant s"
  by (simp add: queue_invariant_def)

lemma keys_update_fresh:
  "k \<notin> fst ` set xs \<Longrightarrow> map fst (AList.update k v xs) = map fst xs @ [k]"
  by (induction xs) auto

lemma addJob_invariant:
  assumes "queue_invariant s" and "newId \<notin> set (map fst (jobs s))"
  shows "queue_invariant (addJob now newId type payload' priority' maxAttempts' s)"
proof -
  let ?job = "\<lparr> job_id = newId, job_type = type, priority = priority', payload = payload',
                   status = pending, createdAt = now, startedAt = None, completedAt = None,
                   attempts = 0, maxAttempts = maxAttempts', errorMessage = None,
                   result = None \<rparr>"
  let ?s2 = "s\<lparr> jobs := AList.update newId ?job (jobs s), queue := queue s @ [newId] \<rparr>"
  have st: "getJobStatus ?s2 j = (if j = newId then Some pending else getJobStatus s j)" for j
    by (simp add: getJobStatus_def getJob_def update_conv')
  have "queue_invariant ?s2"
    using assms unfolding queue_invariant_def st
    by (auto simp: keys_update_fresh)
  then have "queue_invariant (sortQueue ?s2)"
    by (simp add: sortQueue_invariant)
  then show ?thesis
    by (simp add: addJob_def Let_def processQueue_invariant)
qed

lemma executeJob_settle_fields [simp]:
  "queue (executeJob_settle now j out s) = queue s"
  "runningJobs (executeJob_settle now j out s) = runningJobs s"
  "isProcessing (executeJob_settle now j out s) = isProcessing s"
  "executions (executeJob_settle now j out s) = executions s"
  "map fst (jobs (executeJob_settle now j out s)) = map fst (jobs s)"
  by (simp_all add: executeJob_settle_def Let_def split: outcome.splits option.splits)

lemma requeue_ids_executeJob_settle:
  "getJob s j = Some job \<Longrightarrow>
   requeue_ids (timers (executeJob_settle now j out s)) =
     (if out \<noteq> Returned (case out of Returned r \<Rightarrow> r | _ \<Rightarrow> []) \<and> int (attempts job) < maxAttempts job
      then requeue_ids (timers s) @ [j] else requeue_ids (timers s))"
  by (cases out) (simp_all add: executeJob_settle_def Let_def)

lemma getJobStatus_executeJob_settle:
  "getJob s j = Some job \<Longrightarrow>
   getJobStatus (executeJob_settle now j out s) k =
     (if k = j
      then Some (case out of Returned r \<Rightarrow> completed
                 | _ \<Rightarrow> if int (attempts job) < maxAttempts job then retrying else failed)
      else getJobStatus s k)"
  by (cases out) (simp_all add: executeJob_settle_def Let_def getJobStatus_update_job)

lemma settle_invariant:
  assumes "queue_invariant s" and "getJobStatus s j = Some running"
  shows "queue_invariant (finally_delete j (executeJob_settle now j out s))"
proof -
  from assms(2) obtain job where job: "getJob s j = Some job"
    by (auto simp: getJobStatus_def split: option.splits)
  from assms have r: "j \<in> set (runningJobs s)"
    by (simp add: queue_invariant_def)
  from assms have "length (runningJobs s) \<le> maxConcurrentJobs"
    by (simp add: queue_invariant_def)
  then have len: "length (removeAll j (runningJobs s)) \<le> maxConcurrentJobs"
    by (rule le_trans [OF length_removeAll_less_eq])
  show ?thesis
    using assms r len
    unfolding queue_invariant_def finally_delete_def
    by (cases out)
       (auto simp: getJobStatus_executeJob_settle [OF job] requeue_ids_executeJob_settle [OF job]
          distinct_removeAll)
qed


lemma requeue_ids_nth:
  assumes "k < length ts"
  shows "requeue_ids ts =
           requeue_ids (take k ts) @ requeue_ids [ts ! k] @ requeue_ids (drop (Suc k) ts)"
proof -
  have "ts = take k ts @ [ts ! k] @ drop (Suc k) ts"
    using assms by (simp add: id_take_nth_drop [symmetric])
  then have "requeue_ids ts = requeue_ids (take k ts @ [ts ! k] @ drop (Suc k) ts)"
    by simp
  then show ?thesis
    by (simp only: requeue_ids_append)
qed

lemma fire_invariant:
  assumes "queue_invariant s" and "k < length (timers s)"
  shows "queue_invariant
           (fire now (snd (timers s ! k))
              (s\<lparr> timers := take k (timers s) @ drop (Suc k) (timers s) \<rparr>))"
proof (cases "snd (timers s ! k)")
  case (Requeue j)
  then have "timers s ! k = (fst (timers s ! k), Requeue j)"
    by (cases "timers s ! k") simp
  then have "requeue_ids [timers s ! k] = [j]"
    by (metis requeue_ids.simps(1,2))
  with requeue_ids_nth [OF assms(2)]
  have ids: "requeue_ids (timers s) =
          requeue_ids (take k (timers s)) @ [j] @ requeue_ids (drop (Suc k) (timers s))"
    by simp
  have "queue_invariant
          (s\<lparr> timers := take k (timers s) @ drop (Suc k) (timers s), queue := j # queue s \<rparr>)"
    using assms(1) unfolding queue_invariant_def ids by auto
  then show ?thesis
    by (simp add: fire_def Requeue sortQueue_invariant)
next
  case Reschedule
  then have "timers s ! k = (fst (timers s ! k), Reschedule)"
    by (cases "timers s ! k") simp
  then have "requeue_ids [timers s ! k] = []"
    by (metis requeue_ids.simps(1,3))
  with requeue_ids_nth [OF assms(2)]
  have ids: "requeue_ids (timers s) =
          requeue_ids (take k (timers s)) @ requeue_ids (drop (Suc k) (timers s))"
    by simp
  have "queue_invariant
          (s\<lparr> timers := take k (timers s) @ drop (Suc k) (timers s), isProcessing := False \<rparr>)"
    using assms(1) unfolding queue_invariant_def ids by auto
  then show ?thesis
    by (simp add: fire_def Reschedule Let_def processQueue_invariant)
qed

lemma cancelJob_invariant:
  assumes "queue_invariant s"
  shows "queue_invariant (snd (cancelJob now j s))"
proof (cases "getJob s j")
  case None
  with assms show ?thesis
    by (simp add: cancelJob_def)
next
  case (Some job)
  show ?thesis
  proof (cases "status job = running \<or> status job = completed")
    case True
    with Some assms show ?thesis
      by (simp add: cancelJob_def)
  next
    case False
    with Some have st: "getJobStatus s j \<noteq> Some running"
      by (simp add: getJobStatus_def)
    have sub: "set (remove1 j (queue s)) \<subseteq> set (queue s)"
      by (rule set_remove1_subset)
    have "queue_invariant
            (update_job j
               (\<lambda>job. job\<lparr> status := failed, errorMessage := Some ''Job cancelled by user'',
                              completedAt := Some now \<rparr>)
               (s\<lparr> queue := remove1 j (queue s) \<rparr>))"
      using assms st sub Some unfolding queue_invariant_def
      by (auto simp: getJobStatus_update_job)
    with Some False show ?thesis
      by (simp add: cancelJob_def)
  qed
qed

lemma subscribe_invariant:
  "queue_invariant (subscribeToProgress j s) = queue_invariant s"
  "queue_invariant (unsubscribeFromProgress j s) = queue_invariant s"
  by (simp_all add: queue_invariant_def subscribeToProgress_def unsubscribeFromProgress_def)

lemma step_invariant:
  assumes "queue_invariant s" and "step e s = Some s'"
  shows "queue_invariant s'"
proof (cases e)
  case (AddJob now newId type payload' priority' maxAttempts')
  with assms show ?thesis
    by (auto simp: addJob_invariant split: if_splits)
next
  case (TimerFires now k)
  with assms show ?thesis
    by (auto simp: fire_invariant split: if_splits)
next
  case (Settles now j out)
  with assms show ?thesis
    by (auto simp: settle_invariant split: if_splits)
next
  case (CancelJob now j)
  with assms show ?thesis
    by (auto simp: cancelJob_invariant)
next
  case (Subscribe j)
  with assms show ?thesis
    by (auto simp: subscribe_invariant)
next
  case (Unsubscribe j)
  with assms show ?thesis
    by (auto simp: subscribe_invariant)
qed

lemma reachable_invariant: "reachable s \<Longrightarrow> queue_invariant s"
proof (induction rule: reachable.induct)
  case reachable_initial
  show ?case
    by (simp add: queue_invariant_def initial_def getJobStatus_def getJob_def)
next
  case (reachable_step s e s')
  then show ?case
    by (simp add: step_invariant)
qed

lemma running_jobs_bounded:
  assumes "queue_invariant s"
  shows "length (getJobsByStatus s running) \<le> length (runningJobs s)"
proof -
  let ?R = "filter (\<lambda>(k, job). status job = running) (jobs s)"
  from assms have d: "distinct (map fst (jobs s))"
    and r: "\<forall>j. (getJobStatus s j = Some running) = (j \<in> set (runningJobs s))"
    by (simp_all add: queue_invariant_def)
  have len: "length (getJobsByStatus s running) = length (map fst ?R)"
    by (simp add: getJobsByStatus_def getAllJobs_def filter_map comp_def case_prod_unfold)
  have dR: "distinct (map fst ?R)"
    using d by (rule distinct_map_filter)
  have "set (map fst ?R) \<subseteq> set (runningJobs s)"
  proof
    fix k assume "k \<in> set (map fst ?R)"
    then obtain job where "(k, job) \<in> set (jobs s)" and "status job = running"
      by auto
    with d have "getJobStatus s k = Some running"
      by (simp add: getJobStatus_def getJob_def)
    with r show "k \<in> set (runningJobs s)"
      by simp
  qed
  then have le: "card (set (map fst ?R)) \<le> card (set (runningJobs s))"
    by (intro card_mono) simp_all
  have "length (getJobsByStatus s running) = length (map fst ?R)"
    by (rule len)
  also have "\<dots> = card (set (map fst ?R))"
    using dR by (rule distinct_card [symmetric])
  also have "\<dots> \<le> card (set (runningJobs s))"
    by (rule le)
  also have "\<dots> \<le> length (runningJobs s)"
    by (rule card_length)
  finally show ?thesis .
qed

section \<open>The concurrency bound\<close>

lemma run_reachable: "reachable s \<Longrightarrow> run es s = Some s' \<Longrightarrow> reachable s'"
proof (induction es arbitrary: s)
  case Nil
  then show ?case by simp
next
  case (Cons e es)
  then show ?case
    by (auto split: option.splits intro: reachable_step)
qed

lemma reachable_after: "reachable (after es)"
  unfolding after_def
  by (cases "run es initial") (auto intro: reachable_initial run_reachable)

lemma processQueue_loop_full:
  "maxConcurrentJobs \<le> length (runningJobs s) \<Longrightarrow> processQueue_loop now s = s"
  by (subst processQueue_loop.simps) simp



section \<open>The order of the pending pool\<close>

lemma sorted_insert_sorted:
  assumes total: "\<And>a b. a \<in> S \<Longrightarrow> b \<in> S \<Longrightarrow> cmp a b \<le> 0 \<or> cmp b a \<le> 0"
    and trans: "\<And>a b c. a \<in> S \<Longrightarrow> b \<in> S \<Longrightarrow> c \<in> S \<Longrightarrow> cmp a b \<le> 0 \<Longrightarrow> cmp b c \<le> 0 \<Longrightarrow> cmp a c \<le> 0"
    and "x \<in> S" and "set ys \<subseteq> S" and "sorted_wrt (\<lambda>a b. cmp a b \<le> (0::int)) ys"
  shows "sorted_wrt (\<lambda>a b. cmp a b \<le> 0) (insert_sorted cmp x ys)"
  using assms(3-)
proof (induction ys)
  case Nil
  then show ?case by simp
next
  case (Cons y ys)
  show ?case
  proof (cases "cmp x y \<le> 0")
    case True
    have "cmp x z \<le> 0" if "z \<in> set ys" for z
      using trans [of x y z] True Cons.prems that by auto
    with True Cons.prems show ?thesis
      by auto
  next
    case False
    with total [of x y] Cons.prems have "cmp y x \<le> 0"
      by auto
    with False Cons show ?thesis
      by auto
  qed
qed

lemma sorted_stable_sort:
  assumes total: "\<And>a b. a \<in> S \<Longrightarrow> b \<in> S \<Longrightarrow> cmp a b \<le> 0 \<or> cmp b a \<le> 0"
    and trans: "\<And>a b c. a \<in> S \<Longrightarrow> b \<in> S \<Longrightarrow> c \<in> S \<Longrightarrow> cmp a b \<le> 0 \<Longrightarrow> cmp b c \<le> 0 \<Longrightarrow> cmp a c \<le> 0"
    and "set xs \<subseteq> S"
  shows "sorted_wrt (\<lambda>a b. cmp a b \<le> (0::int)) (stable_sort cmp xs)"
  using assms(3)
proof (induction xs)
  case Nil
  then show ?case by simp
next
  case (Cons x xs)
  then show ?case
    using sorted_insert_sorted [of S cmp x "stable_sort cmp xs", OF total trans]
    by auto
qed

lemma compare_queued_precedes:
  assumes "getJob s a = Some x" and "getJob s b = Some y"
  shows "(compare_queued s a b \<le> 0) = precedes (job_key s a) (job_key s b)"
  using assms by (auto simp: compare_queued_def compareJobs_def job_key_def)

lemma sortQueue_in_order:
  assumes "set (queue s) \<subseteq> fst ` set (jobs s)"
  shows "pool_in_order (sortQueue s)"
proof -
  let ?S = "fst ` set (jobs s)"
  have key: "\<exists>x. getJob s a = Some x" if "a \<in> ?S" for a
    using that getJob_Some_iff_key [of s a] by simp
  have total: "compare_queued s a b \<le> 0 \<or> compare_queued s b a \<le> 0" if "a \<in> ?S" "b \<in> ?S" for a b
    using key [OF that(1)] key [OF that(2)]
    by (auto simp: compare_queued_def compareJobs_def)
  have trans: "compare_queued s a c \<le> 0"
    if "a \<in> ?S" "b \<in> ?S" "c \<in> ?S" "compare_queued s a b \<le> 0" "compare_queued s b c \<le> 0" for a b c
    using key [OF that(1)] key [OF that(2)] key [OF that(3)] that(4,5)
    by (auto simp: compare_queued_def compareJobs_def split: if_splits)
  have "sorted_wrt (\<lambda>a b. compare_queued s a b \<le> 0) (stable_sort (compare_queued s) (queue s))"
    using total trans assms by (rule sorted_stable_sort)
  then have "sorted_wrt (\<lambda>a b. precedes (job_key s a) (job_key s b))
               (stable_sort (compare_queued s) (queue s))"
  proof (rule sorted_wrt_mono_rel [rotated])
    fix a b
    assume "a \<in> set (stable_sort (compare_queued s) (queue s))"
      and "b \<in> set (stable_sort (compare_queued s) (queue s))"
      and le: "compare_queued s a b \<le> 0"
    with assms have "a \<in> ?S" and "b \<in> ?S"
      by auto
    with key obtain x y where "getJob s a = Some x" and "getJob s b = Some y"
      by blast
    with le show "precedes (job_key s a) (job_key s b)"
      by (simp add: compare_queued_precedes)
  qed
  then show ?thesis
    by (simp add: pool_in_order_def sortQueue_def sorted_wrt_map job_key_def)
qed


lemma job_key_other_fields [simp]:
  "job_key (s\<lparr> queue := q \<rparr>) = job_key s"
  "job_key (s\<lparr> runningJobs := r \<rparr>) = job_key s"
  "job_key (s\<lparr> timers := t \<rparr>) = job_key s"
  "job_key (s\<lparr> isProcessing := b \<rparr>) = job_key s"
  by (simp_all add: job_key_def fun_eq_iff)

lemma job_key_executeJob_start [simp]: "job_key (executeJob_start now j s) = job_key s"
  by (auto simp: job_key_def fun_eq_iff getJob_executeJob_start map_option_case split: option.splits)

lemma processQueue_loop_suffix:
  "job_key (processQueue_loop now s) = job_key s \<and>
   (\<exists>k. queue (processQueue_loop now s) = drop k (queue s))"
proof (induction now s rule: processQueue_loop.induct)
  case (1 now s)
  show ?case
  proof (cases "queue s \<noteq> [] \<and> length (runningJobs s) < maxConcurrentJobs")
    case True
    then obtain j q where q: "queue s = j # q"
      by (cases "queue s") auto
    show ?thesis
    proof (cases "j \<in> set (runningJobs s)")
      case skip: True
      have u: "processQueue_loop now s = processQueue_loop now (s\<lparr> queue := q \<rparr>)"
        using True q skip by (subst processQueue_loop.simps) (simp add: Let_def)
      from "1.IH"(1) [OF True refl refl] True q skip
      obtain k where "job_key (processQueue_loop now (s\<lparr> queue := q \<rparr>)) = job_key s"
        and "queue (processQueue_loop now (s\<lparr> queue := q \<rparr>)) = drop k q"
        by (auto simp: Let_def)
      then show ?thesis
        unfolding u q by (auto intro: exI [of _ "Suc k"])
    next
      case go: False
      let ?s' = "executeJob_start now j (s\<lparr> queue := q, runningJobs := runningJobs s @ [j] \<rparr>)"
      have u: "processQueue_loop now s = processQueue_loop now ?s'"
        using True q go by (subst processQueue_loop.simps) (simp add: Let_def)
      from "1.IH"(2) [OF True refl refl] True q go
      obtain k where "job_key (processQueue_loop now ?s') = job_key s"
        and "queue (processQueue_loop now ?s') = drop k q"
        by (auto simp: Let_def)
      then show ?thesis
        unfolding u q by (auto intro: exI [of _ "Suc k"])
    qed
  next
    case False
    then have "processQueue_loop now s = s"
      by (subst processQueue_loop.simps) auto
    then show ?thesis
      by (auto intro: exI [of _ 0])
  qed
qed

lemma pool_in_order_processQueue:
  assumes "pool_in_order s"
  shows "pool_in_order (processQueue now s)"
proof (cases "isProcessing s")
  case True
  with assms show ?thesis
    by (simp add: processQueue_def)
next
  case False
  from processQueue_loop_suffix [of now "s\<lparr> isProcessing := True \<rparr>"]
  obtain k where k: "job_key (processQueue_loop now (s\<lparr> isProcessing := True \<rparr>)) = job_key s"
    and q: "queue (processQueue_loop now (s\<lparr> isProcessing := True \<rparr>)) = drop k (queue s)"
    by auto
  from assms have "sorted_wrt precedes (drop k (map (job_key s) (queue s)))"
    unfolding pool_in_order_def by (rule sorted_wrt_drop)
  then show ?thesis
    using False k q by (simp add: processQueue_def Let_def pool_in_order_def drop_map)
qed

lemma addJob_in_order:
  assumes "set (queue s) \<subseteq> fst ` set (jobs s)"
  shows "pool_in_order (addJob now newId type payload' priority' maxAttempts' s)"
proof -
  let ?job = "\<lparr> job_id = newId, job_type = type, priority = priority', payload = payload',
                   status = pending, createdAt = now, startedAt = None, completedAt = None,
                   attempts = 0, maxAttempts = maxAttempts', errorMessage = None,
                   result = None \<rparr>"
  let ?s2 = "s\<lparr> jobs := AList.update newId ?job (jobs s), queue := queue s @ [newId] \<rparr>"
  have "set (queue ?s2) \<subseteq> fst ` set (jobs ?s2)"
    using assms by (auto simp: dom_update)
  then have "pool_in_order (sortQueue ?s2)"
    by (rule sortQueue_in_order)
  then show ?thesis
    by (simp add: addJob_def Let_def pool_in_order_processQueue)
qed

lemma addJob_busy:
  assumes "isProcessing s"
  shows "executions (addJob now newId type payload' priority' maxAttempts' s) = executions s"
  using assms by (simp add: addJob_def Let_def)

lemma addJob_idle:
  assumes "\<not> isProcessing s" and "queue s = []" and "length (runningJobs s) < maxConcurrentJobs"
    and "newId \<notin> set (runningJobs s)"
  shows "executions (addJob now newId type payload' priority' maxAttempts' s) = executions s @ [newId]"
proof -
  let ?job = "\<lparr> job_id = newId, job_type = type, priority = priority', payload = payload',
                   status = pending, createdAt = now, startedAt = None, completedAt = None,
                   attempts = 0, maxAttempts = maxAttempts', errorMessage = None,
                   result = None \<rparr>"
  let ?s3 = "sortQueue (s\<lparr> jobs := AList.update newId ?job (jobs s), queue := queue s @ [newId] \<rparr>)"
  have q: "queue ?s3 = [newId]"
    using assms(2) by (simp add: sortQueue_def)
  have "executions (processQueue_loop now (?s3\<lparr> isProcessing := True \<rparr>)) =
          executions (?s3\<lparr> isProcessing := True \<rparr>) @
          take (maxConcurrentJobs - length (runningJobs (?s3\<lparr> isProcessing := True \<rparr>)))
            (queue (?s3\<lparr> isProcessing := True \<rparr>))"
    using processQueue_loop_dispatches [of "?s3\<lparr> isProcessing := True \<rparr>" now] assms(4) q
    by simp
  then show ?thesis
    using assms(1,3) q by (simp add: addJob_def Let_def processQueue_def)
qed






section \<open>Retry and cancellation\<close>

lemma compare_queued_queue [simp]: "compare_queued (s\<lparr> queue := q \<rparr>) = compare_queued s"
  by (simp add: compare_queued_def fun_eq_iff)

lemma getJob_executeJob_settle_thrown:
  assumes "getJob s j = Some job" and "\<And>r. out \<noteq> Returned r"
  shows "getJob (executeJob_settle now j out s) j =
           Some (if int (attempts job) < maxAttempts job
                 then job\<lparr> status := retrying, errorMessage := Some (thrown_message out) \<rparr>
                 else job\<lparr> status := failed, completedAt := Some now,
                           errorMessage := Some (thrown_message out) \<rparr>)"
    and "timers (executeJob_settle now j out s) =
           (if int (attempts job) < maxAttempts job
            then timers s @ [(now + 5000 * attempts job, Requeue j)] else timers s)"
  using assms
  by (cases out; simp add: executeJob_settle_def Let_def getJob_update_job thrown_message_def)+




text \<open>
  Claim C8, as amended. \<open>cancelJob\<close> returns false and changes nothing when the job is
  absent, running or completed. In every other status (pending, retrying, and also
  failed) it returns true, removes the job from the pool if it is there, and sets the
  status \<open>failed\<close>, the cancellation message and \<open>completedAt\<close>; nothing else changes.
\<close>

theorem cancelJob_result:
  "(getJob s jobId = None \<longrightarrow> cancelJob now jobId s = (False, s)) \<and>
   (\<forall>job. getJob s jobId = Some job \<and> (status job = running \<or> status job = completed) \<longrightarrow>
      cancelJob now jobId s = (False, s)) \<and>
   (\<forall>job. getJob s jobId = Some job \<and>
      (status job = pending \<or> status job = retrying \<or> status job = failed) \<longrightarrow>
      fst (cancelJob now jobId s) = True \<and>
      queue (snd (cancelJob now jobId s)) = remove1 jobId (queue s) \<and>
      getJob (snd (cancelJob now jobId s)) jobId =
        Some (job\<lparr> status := failed, errorMessage := Some ''Job cancelled by user'',
                  completedAt := Some now \<rparr>) \<and>
      (\<forall>other. other \<noteq> jobId \<longrightarrow> getJob (snd (cancelJob now jobId s)) other = getJob s other) \<and>
      runningJobs (snd (cancelJob now jobId s)) = runningJobs s \<and>
      timers (snd (cancelJob now jobId s)) = timers s \<and>
      isProcessing (snd (cancelJob now jobId s)) = isProcessing s \<and>
      executions (snd (cancelJob now jobId s)) = executions s)"
  by (auto simp: cancelJob_def getJob_update_job)

text \<open>With one job running and one pending, the pending one is cancelled, the other is not.\<close>

theorem cancelJob_result_witness:
  "getJobStatus (after (butlast cancel_events)) ''b'' = Some pending \<and>
   queue (after (butlast cancel_events)) = [''b''] \<and>
   fst (cancelJob 2 ''b'' (after (butlast cancel_events))) = True \<and>
   queue (snd (cancelJob 2 ''b'' (after (butlast cancel_events)))) = [] \<and>
   getJobStatus (snd (cancelJob 2 ''b'' (after (butlast cancel_events)))) ''b'' = Some failed \<and>
   cancelJob 2 ''a'' (after (butlast cancel_events)) = (False, after (butlast cancel_events))"
proof -
  let ?s = "after (butlast cancel_events)"
  have b: "getJob ?s ''b'' =
     Some \<lparr> job_id = ''b'', job_type = scraping, priority = 3, payload = ''{}'',
            status = pending, createdAt = 1, startedAt = None, completedAt = None,
            attempts = 0, maxAttempts = 3, errorMessage = None, result = None \<rparr>"
    by code_simp
  have a: "getJob ?s ''a'' =
     Some \<lparr> job_id = ''a'', job_type = scraping, priority = 3, payload = ''{}'',
            status = running, createdAt = 0, startedAt = Some 0, completedAt = None,
            attempts = 1, maxAttempts = 3, errorMessage = None, result = None \<rparr>"
    by code_simp
  have q: "queue ?s = [''b'']"
    by code_simp
  from cancelJob_result [of ?s "''b''" 2] cancelJob_result [of ?s "''a''" 2] a b q
  show ?thesis
    by (simp add: getJobStatus_def)
qed

text \<open>
  Claim C8 as stated fails on a job that is already \<open>failed\<close>, a terminal state:
  \<open>cancelJob\<close> returns true and stamps \<open>completedAt\<close> again.
\<close>

theorem cancelJob_failed_job:
  "getJobStatus (after cancel_events) ''b'' = Some failed \<and>
   fst (cancelJob 3 ''b'' (after cancel_events)) = True \<and>
   map_option completedAt (getJob (after cancel_events) ''b'') = Some (Some 2) \<and>
   map_option completedAt (getJob (snd (cancelJob 3 ''b'' (after cancel_events))) ''b'')
     = Some (Some 3)"
proof -
  have "getJobStatus (after cancel_events) ''b'' = Some failed"
    by code_simp
  moreover have "fst (cancelJob 3 ''b'' (after cancel_events)) = True"
    by code_simp
  moreover have "map_option completedAt (getJob (after cancel_events) ''b'') = Some (Some 2)"
    by code_simp
  moreover have "map_option completedAt
      (getJob (snd (cancelJob 3 ''b'' (after cancel_events))) ''b'') = Some (Some 3)"
    by code_simp
  ultimately show ?thesis
    by simp
qed

end
